theory Spec2Isabelle
  imports
    Main
    "HOL-Library.Word"
    "HOL-Library.AList"
    "HOL-Library.Sublist"
    "HOL-Library.Multiset"
    "HOL-Library.Char_ord"
    "HOL-Library.List_Lexorder"
    "HOL-Library.Product_Lexorder"
begin

section \<open>Go values\<close>

text \<open>
  Go's \<open>int\<close> is 64 bits wide on every platform the Makefile builds for: arithmetic wraps,
  comparisons are signed (\<open>sint\<close>). A Go \<open>string\<close> is a byte sequence, here a
  \<open>char list\<close>; comparison of strings is bytewise lexicographic. A Go \<open>map\<close> is an
  association list with distinct keys: lookup is \<open>map_of\<close>, assignment \<open>AList.update\<close>,
  \<open>delete\<close> is \<open>AList.delete\<close>, \<open>len\<close> is \<open>length\<close> and \<open>range\<close> visits the
  entries in list order (one of the orders Go may choose).
\<close>

type_synonym go_int = "64 word"

type_synonym ('k, 'v) go_map = "('k \<times> 'v) list"

datatype error =
    DocumentNotFound string
  | HasChildrenErr
  | MkDirErr
  | IOErr string
  | CommitErr
  | StemErr string

datatype 'a outcome = Panic | Returns 'a

record ShortDocument =
  sID :: string
  sTitle :: string
  HasChildren :: bool
  sPath :: string

record Document =
  ID :: string
  Title :: string
  Content :: string
  Path :: string
  Children :: "ShortDocument list"
  Uncommitted :: bool
  Favorite :: bool

section \<open>strings and path/filepath\<close>

text \<open>\<open>strings.Split(s, "/")\<close>: the pieces between separators, at least one piece.\<close>

fun split_on :: "char \<Rightarrow> string \<Rightarrow> string list" where
  "split_on sep [] = [[]]"
| "split_on sep (c # cs) =
     (if c = sep then [] # split_on sep cs
      else (case split_on sep cs of [] \<Rightarrow> [[c]] | p # ps \<Rightarrow> (c # p) # ps))"

text \<open>\<open>strings.Join(parts, "/")\<close>.\<close>

fun join_with :: "char \<Rightarrow> string list \<Rightarrow> string" where
  "join_with sep [] = []"
| "join_with sep [p] = p"
| "join_with sep (p # q # ps) = p @ sep # join_with sep (q # ps)"

text \<open>
  \<open>filepath.Clean\<close> on a Unix path: empty elements and \<open>.\<close> are dropped, an inner
  \<open>..\<close> removes the element before it, a \<open>..\<close> at the root of a rooted path is dropped,
  and the empty result is \<open>.\<close>. The stack holds the kept elements, last one first.
\<close>

fun clean_step :: "bool \<Rightarrow> string list \<Rightarrow> string \<Rightarrow> string list" where
  "clean_step rooted stack el =
     (if el = [] \<or> el = ''.'' then stack
      else if el = ''..'' then
        (case stack of
           [] \<Rightarrow> (if rooted then [] else [''..''])
         | t # below \<Rightarrow> (if t = ''..'' then el # stack else below))
      else el # stack)"

definition Clean :: "string \<Rightarrow> string" where
  "Clean p =
     (let rooted = (p \<noteq> [] \<and> hd p = CHR ''/'');
          kept = rev (foldl (clean_step rooted) [] (split_on CHR ''/'' p));
          out = (if rooted then ''/'' else []) @ join_with CHR ''/'' kept
      in if out = [] then ''.'' else out)"

text \<open>\<open>filepath.Join\<close> and \<open>path.Join\<close>: empty elements are ignored, the rest is joined
  with the separator and cleaned; no element at all gives the empty string.\<close>

definition Join :: "string list \<Rightarrow> string" where
  "Join elems =
     (let es = filter (\<lambda>e. e \<noteq> []) elems
      in if es = [] then [] else Clean (join_with CHR ''/'' es))"

text \<open>\<open>filepath.Dir\<close>: the path up to and including its last separator, cleaned.\<close>

definition Dir :: "string \<Rightarrow> string" where
  "Dir p = Clean (rev (dropWhile (\<lambda>c. c \<noteq> CHR ''/'') (rev p)))"

text \<open>\<open>filepath.Base\<close>: the last element, after trailing separators are removed.\<close>

definition Base :: "string \<Rightarrow> string" where
  "Base p =
     (if p = [] then ''.''
      else let q = rev (dropWhile (\<lambda>c. c = CHR ''/'') (rev p))
           in if q = [] then ''/'' else last (split_on CHR ''/'' q))"

text \<open>\<open>strings.TrimSuffix\<close>.\<close>

definition TrimSuffix :: "string \<Rightarrow> string \<Rightarrow> string" where
  "TrimSuffix s suf = (if suffix suf s then take (length s - length suf) s else s)"

text \<open>
  \<open>strings.Fields\<close> and \<open>strings.ToLower\<close> read the Unicode tables of the Go library
  (every rune of \<open>unicode.IsSpace\<close> separates fields, every letter with a lower case is
  lowered). The tables are not part of the repository, so the two functions are parameters
  of the model: a value of \<open>strings_pkg\<close> stands for package \<open>strings\<close>, and what is
  proved for every such value holds for the functions of the library.
\<close>

record strings_pkg =
  Fields :: "string \<Rightarrow> string list"
  ToLower :: "string \<Rightarrow> string"

text \<open>
  On ASCII text the two functions are the following ones: the fields are the maximal runs
  of characters other than tab, line feed, vertical tab, form feed, carriage return and
  space, and the letters \<open>A\<close> to \<open>Z\<close> are lowered. The closed examples below run on
  ASCII text with them.
\<close>

definition is_space :: "char \<Rightarrow> bool" where
  "is_space c = (c \<in> set [CHR 0x09, CHR 0x0A, CHR 0x0B, CHR 0x0C, CHR 0x0D, CHR 0x20])"

fun Fields_from :: "string \<Rightarrow> string \<Rightarrow> string list" where
  "Fields_from cur [] = (if cur = [] then [] else [cur])"
| "Fields_from cur (c # cs) =
     (if is_space c then (if cur = [] then Fields_from [] cs else cur # Fields_from [] cs)
      else Fields_from (cur @ [c]) cs)"

definition ascii_Fields :: "string \<Rightarrow> string list" where
  "ascii_Fields s = Fields_from [] s"

definition lower_char :: "char \<Rightarrow> char" where
  "lower_char c =
     (case map_of (zip ''ABCDEFGHIJKLMNOPQRSTUVWXYZ'' ''abcdefghijklmnopqrstuvwxyz'') c of
        Some l \<Rightarrow> l
      | None \<Rightarrow> c)"

definition ascii_ToLower :: "string \<Rightarrow> string" where
  "ascii_ToLower s = map lower_char s"

definition ascii_strings :: strings_pkg where
  "ascii_strings = \<lparr>Fields = ascii_Fields, ToLower = ascii_ToLower\<rparr>"

text \<open>\<open>strings.Trim(s, cutset)\<close>: leading and trailing characters of the cutset removed.\<close>

definition Trim :: "string \<Rightarrow> string \<Rightarrow> string" where
  "Trim s cutset =
     rev (dropWhile (\<lambda>c. c \<in> set cutset) (rev (dropWhile (\<lambda>c. c \<in> set cutset) s)))"

text \<open>The cutset of the search engine: \<open>.,!?"'()[]{}\<close>.\<close>

definition punctuation :: string where
  "punctuation =
     [CHR ''.'', CHR '','', CHR ''!'', CHR ''?'', CHR 0x22, CHR 0x27,
      CHR ''('', CHR '')'', CHR ''['', CHR '']'', CHR ''{'', CHR ''}'']"

text \<open>What the loops of the search engine do to a word: \<open>strings.ToLower\<close>, then
  \<open>strings.Trim\<close> with the cutset.\<close>

definition normalize_word :: "(string \<Rightarrow> string) \<Rightarrow> string \<Rightarrow> string" where
  "normalize_word lower word = Trim (lower word) punctuation"

section \<open>The search index (search.go)\<close>

text \<open>
  \<open>SearchEngine\<close>: the inverted index (stem to path to count), the indexed documents by
  full path, the configured languages (the keys of the \<open>languages\<close> map) and the stemmer,
  which is \<open>snowball.Stem\<close> in production and a field of the struct. The stemmer returns a
  stem or an error. The value also carries package \<open>strings\<close>, the parameter the calls
  \<open>strings.Fields\<close> and \<open>strings.ToLower\<close> of the engine are read from. The lock is not
  modelled: every operation runs alone.
\<close>

record SearchEngine =
  index :: "(string, (string, go_int) go_map) go_map"
  documents :: "(string, Document) go_map"
  languages :: "string list"
  stemmer :: "string \<Rightarrow> string \<Rightarrow> bool \<Rightarrow> error + string"
  strings :: strings_pkg

definition NewSearchEngine ::
  "strings_pkg \<Rightarrow> (string \<Rightarrow> string \<Rightarrow> bool \<Rightarrow> error + string) \<Rightarrow> string list \<Rightarrow> SearchEngine" where
  "NewSearchEngine strs stem langs =
     \<lparr>index = [], documents = [], languages = remdups langs, stemmer = stem, strings = strs\<rparr>"

definition getBasePath :: "string \<Rightarrow> string" where
  "getBasePath docPath = (if docPath = [] then ''data'' else Join [''data'', docPath])"

text \<open>\<open>se.index[stemmed][fullPath]++\<close>, after the bucket is created when it is missing.\<close>

definition bump ::
  "string \<Rightarrow> string \<Rightarrow> (string, (string, go_int) go_map) go_map
     \<Rightarrow> (string, (string, go_int) go_map) go_map" where
  "bump stemmed fullPath idx =
     (let bucket = (case map_of idx stemmed of None \<Rightarrow> [] | Some b \<Rightarrow> b);
          n = (case map_of bucket fullPath of None \<Rightarrow> 0 | Some c \<Rightarrow> c)
      in AList.update stemmed (AList.update fullPath (n + 1) bucket) idx)"

text \<open>The inner loop of \<open>IndexDocument\<close>: one normalized word under every language.\<close>

fun index_word ::
  "(string \<Rightarrow> string \<Rightarrow> bool \<Rightarrow> error + string) \<Rightarrow> string \<Rightarrow> string \<Rightarrow> string list
     \<Rightarrow> (string, (string, go_int) go_map) go_map \<Rightarrow> (string, (string, go_int) go_map) go_map" where
  "index_word stem fullPath word [] idx = idx"
| "index_word stem fullPath word (lang # langs) idx =
     (case stem word lang False of
        Inr stemmed \<Rightarrow>
          (if stemmed \<noteq> [] then index_word stem fullPath word langs (bump stemmed fullPath idx)
           else index_word stem fullPath word langs idx)
      | Inl err \<Rightarrow> index_word stem fullPath word langs idx)"

text \<open>The outer loop of \<open>IndexDocument\<close> over the words of the text.\<close>

fun index_words ::
  "(string \<Rightarrow> string \<Rightarrow> bool \<Rightarrow> error + string) \<Rightarrow> (string \<Rightarrow> string) \<Rightarrow> string \<Rightarrow> string list \<Rightarrow> string list
     \<Rightarrow> (string, (string, go_int) go_map) go_map \<Rightarrow> (string, (string, go_int) go_map) go_map" where
  "index_words stem lower fullPath langs [] idx = idx"
| "index_words stem lower fullPath langs (word # ws) idx =
     index_words stem lower fullPath langs ws
       (index_word stem fullPath (normalize_word lower word) langs idx)"

definition IndexDocument :: "SearchEngine \<Rightarrow> Document \<Rightarrow> SearchEngine \<times> error option" where
  "IndexDocument se doc =
     (let fullPath = getBasePath (Path doc);
          docs = AList.update fullPath doc (documents se);
          content = Title doc @ '' '' @ Content doc;
          ws = Fields (strings se) content
      in (se\<lparr>documents := docs,
              index := index_words (stemmer se) (ToLower (strings se)) fullPath (languages se) ws (index se)\<rparr>,
          None))"

text \<open>
  The body of the loops of \<open>DeleteDocument\<close>: the bucket of the stem loses the path, and
  the stem loses its bucket when that was the last path.
\<close>

definition unlink ::
  "string \<Rightarrow> string \<Rightarrow> (string, (string, go_int) go_map) go_map
     \<Rightarrow> (string, (string, go_int) go_map) go_map" where
  "unlink stemmed fullPath idx =
     (case map_of idx stemmed of
        None \<Rightarrow> idx
      | Some bucket \<Rightarrow>
          (let bucket' = AList.delete fullPath bucket
           in if length bucket' = 0 then AList.delete stemmed idx
              else AList.update stemmed bucket' idx))"

fun unindex_words ::
  "(string \<Rightarrow> string \<Rightarrow> bool \<Rightarrow> error + string) \<Rightarrow> (string \<Rightarrow> string) \<Rightarrow> string \<Rightarrow> string \<Rightarrow> string list
     \<Rightarrow> (string, (string, go_int) go_map) go_map \<Rightarrow> (string, (string, go_int) go_map) go_map" where
  "unindex_words stem lower fullPath lang [] idx = idx"
| "unindex_words stem lower fullPath lang (word # ws) idx =
     (case stem (normalize_word lower word) lang False of
        Inr stemmed \<Rightarrow>
          (if stemmed \<noteq> [] then unindex_words stem lower fullPath lang ws (unlink stemmed fullPath idx)
           else unindex_words stem lower fullPath lang ws idx)
      | Inl err \<Rightarrow> unindex_words stem lower fullPath lang ws idx)"

fun unindex_langs ::
  "(string \<Rightarrow> string \<Rightarrow> bool \<Rightarrow> error + string) \<Rightarrow> (string \<Rightarrow> string) \<Rightarrow> string \<Rightarrow> string list \<Rightarrow> string list
     \<Rightarrow> (string, (string, go_int) go_map) go_map \<Rightarrow> (string, (string, go_int) go_map) go_map" where
  "unindex_langs stem lower fullPath ws [] idx = idx"
| "unindex_langs stem lower fullPath ws (lang # langs) idx =
     unindex_langs stem lower fullPath ws langs (unindex_words stem lower fullPath lang ws idx)"

definition DeleteDocument :: "SearchEngine \<Rightarrow> string \<Rightarrow> SearchEngine \<times> error option" where
  "DeleteDocument se docPath =
     (let fullPath = getBasePath docPath
      in case map_of (documents se) fullPath of
           None \<Rightarrow> (se, Some (DocumentNotFound docPath))
         | Some doc \<Rightarrow>
             (let docContent = Title doc @ '' '' @ Content doc;
                  ws = Fields (strings se) docContent
              in (se\<lparr>index := unindex_langs (stemmer se) (ToLower (strings se)) fullPath ws (languages se) (index se),
                      documents := AList.delete fullPath (documents se)\<rparr>,
                  None)))"

text \<open>\<open>results[docPath] += count\<close> for every entry of one bucket.\<close>

fun add_counts ::
  "(string, go_int) go_map \<Rightarrow> (string, go_int) go_map \<Rightarrow> (string, go_int) go_map" where
  "add_counts [] results = results"
| "add_counts ((docPath, n) # docs) results =
     add_counts docs
       (AList.update docPath ((case map_of results docPath of None \<Rightarrow> 0 | Some s \<Rightarrow> s) + n) results)"

fun search_word ::
  "(string \<Rightarrow> string \<Rightarrow> bool \<Rightarrow> error + string) \<Rightarrow> (string, (string, go_int) go_map) go_map
     \<Rightarrow> string \<Rightarrow> string list \<Rightarrow> (string, go_int) go_map \<Rightarrow> (string, go_int) go_map" where
  "search_word stem idx word [] results = results"
| "search_word stem idx word (lang # langs) results =
     (case stem word lang False of
        Inl err \<Rightarrow> search_word stem idx word langs results
      | Inr stemmed \<Rightarrow>
          (if stemmed = [] then search_word stem idx word langs results
           else (case map_of idx stemmed of
                   Some docs \<Rightarrow> search_word stem idx word langs (add_counts docs results)
                 | None \<Rightarrow> search_word stem idx word langs results)))"

fun search_words ::
  "(string \<Rightarrow> string \<Rightarrow> bool \<Rightarrow> error + string) \<Rightarrow> (string \<Rightarrow> string) \<Rightarrow> (string, (string, go_int) go_map) go_map
     \<Rightarrow> string list \<Rightarrow> string list \<Rightarrow> (string, go_int) go_map \<Rightarrow> (string, go_int) go_map" where
  "search_words stem lower idx langs [] results = results"
| "search_words stem lower idx langs (word # ws) results =
     search_words stem lower idx langs ws (search_word stem idx (normalize_word lower word) langs results)"

text \<open>
  The test of the sorting loops, on the entries at \<open>i\<close> and \<open>j\<close> (a path and its score):
  with equal scores the entries are exchanged when the path at \<open>i\<close> is the greater one,
  otherwise when the score at \<open>j\<close> is the greater one.
\<close>

definition exchange :: "string \<times> go_int \<Rightarrow> string \<times> go_int \<Rightarrow> bool" where
  "exchange ri rj =
     (if snd rj = snd ri then fst ri > fst rj else sint (snd rj) > sint (snd ri))"

definition sort_step :: "(string \<times> go_int) list \<Rightarrow> nat \<Rightarrow> nat \<Rightarrow> (string \<times> go_int) list" where
  "sort_step rs i j = (if exchange (rs ! i) (rs ! j) then rs[i := rs ! j, j := rs ! i] else rs)"

function sort_inner :: "(string \<times> go_int) list \<Rightarrow> nat \<Rightarrow> nat \<Rightarrow> (string \<times> go_int) list" where
  "sort_inner rs i j = (if j < length rs then sort_inner (sort_step rs i j) i (j + 1) else rs)"
  by pat_completeness auto
termination
  by (relation "measure (\<lambda>(rs, i, j). length rs - j)") (auto simp: sort_step_def)

declare sort_inner.simps [simp del]

lemma length_sort_step [simp]: "length (sort_step rs i j) = length rs"
  by (simp add: sort_step_def)

lemma length_sort_inner [simp]: "length (sort_inner rs i j) = length rs"
proof (induction rs i j rule: sort_inner.induct)
  case (1 rs i j)
  show ?case
  proof (cases "j < length rs")
    case True
    with 1 show ?thesis by (subst sort_inner.simps) simp
  next
    case False
    then show ?thesis by (subst sort_inner.simps) simp
  qed
qed

function sort_outer :: "(string \<times> go_int) list \<Rightarrow> nat \<Rightarrow> (string \<times> go_int) list" where
  "sort_outer rs i = (if i < length rs then sort_outer (sort_inner rs i (i + 1)) (i + 1) else rs)"
  by pat_completeness auto
termination
  by (relation "measure (\<lambda>(rs, i). length rs - i)") auto

declare sort_outer.simps [simp del]

definition sortResults :: "(string \<times> go_int) list \<Rightarrow> (string \<times> go_int) list" where
  "sortResults rs = sort_outer rs 0"

text \<open>The documents of one page: a path without a stored document is passed over.\<close>

fun page_docs :: "(string, Document) go_map \<Rightarrow> (string \<times> go_int) list \<Rightarrow> Document list" where
  "page_docs docs [] = []"
| "page_docs docs (r # rs) =
     (case map_of docs (fst r) of
        Some doc \<Rightarrow> doc # page_docs docs rs
      | None \<Rightarrow> page_docs docs rs)"

text \<open>The list \<open>sortedResults\<close> of \<open>Search\<close>, before the page window.\<close>

definition ranked :: "SearchEngine \<Rightarrow> string \<Rightarrow> (string \<times> go_int) list" where
  "ranked se query =
     sortResults (search_words (stemmer se) (ToLower (strings se)) (index se) (languages se) (Fields (strings se) query) [])"

text \<open>
  \<open>Search\<close>. The slice expression \<open>sortedResults[start:end]\<close> panics unless
  \<open>0 \<le> start \<le> end \<le> len\<close>; \<open>len\<close> of a slice is below \<open>2 ^ 63\<close> and is kept as an \<open>int\<close>.
\<close>

definition Search ::
  "SearchEngine \<Rightarrow> string \<Rightarrow> go_int \<Rightarrow> go_int \<Rightarrow> (Document list \<times> int \<times> error option) outcome" where
  "Search se query page0 pageSize0 =
     (let page = (if page0 <s 1 then 1 else page0);
          pageSize = (if pageSize0 <s 1 then 10 else pageSize0);
          sortedResults = ranked se query;
          totalResults = int (length sortedResults);
          start = (page - 1) * pageSize
      in if sint start \<ge> totalResults then Returns ([], totalResults, None)
         else
           (let end0 = start + pageSize;
                end' = (if sint end0 > totalResults then totalResults else sint end0)
            in if sint start < 0 \<or> end' < sint start then Panic
               else Returns
                 (page_docs (documents se)
                    (take (nat end' - nat (sint start)) (drop (nat (sint start)) sortedResults)),
                  totalResults, None)))"

subsection \<open>Histories of the index\<close>

text \<open>
  A history of the index is a list of calls of \<open>IndexDocument\<close> and \<open>DeleteDocument\<close>,
  run from the engine \<open>NewSearchEngine\<close> returns. A call of \<open>DeleteDocument\<close> that
  returns an error leaves the engine as it was. \<open>tokens_indexed\<close> bounds the number of
  increments \<open>index[stem][path]++\<close> a history performs: one for each word and language.
\<close>

datatype index_op = Index Document | Delete string

fun apply_op :: "SearchEngine \<Rightarrow> index_op \<Rightarrow> SearchEngine" where
  "apply_op se (Index doc) = fst (IndexDocument se doc)"
| "apply_op se (Delete docPath) = fst (DeleteDocument se docPath)"

definition run_ops :: "SearchEngine \<Rightarrow> index_op list \<Rightarrow> SearchEngine" where
  "run_ops se ops = foldl apply_op se ops"

fun increments :: "strings_pkg \<Rightarrow> string list \<Rightarrow> index_op \<Rightarrow> nat" where
  "increments strs langs (Index doc) =
     length (Fields strs (Title doc @ '' '' @ Content doc)) * length langs"
| "increments strs langs (Delete docPath) = 0"

definition tokens_indexed :: "strings_pkg \<Rightarrow> string list \<Rightarrow> index_op list \<Rightarrow> nat" where
  "tokens_indexed strs langs ops = sum_list (map (increments strs langs) ops)"

text \<open>
  Every bucket of the index holds a path with a positive count (\<open>index_ok\<close>), and, as the
  weaker fact that does not read the counts, no bucket is empty (\<open>buckets_filled\<close>).
  \<open>counts_upto n\<close> is the invariant behind both: no bucket is empty and every count lies
  between 1 and \<open>n\<close>.
\<close>

definition index_ok :: "(string, (string, go_int) go_map) go_map \<Rightarrow> bool" where
  "index_ok idx = list_all (\<lambda>(stemmed, bucket). list_ex (\<lambda>(p, c). 0 <s c) bucket) idx"

definition buckets_filled :: "(string, (string, go_int) go_map) go_map \<Rightarrow> bool" where
  "buckets_filled idx = list_all (\<lambda>(stemmed, bucket). bucket \<noteq> []) idx"

definition counts_upto :: "nat \<Rightarrow> (string, (string, go_int) go_map) go_map \<Rightarrow> bool" where
  "counts_upto n idx =
     (\<forall>stemmed bucket. (stemmed, bucket) \<in> set idx \<longrightarrow>
        bucket \<noteq> [] \<and> (\<forall>p c. (p, c) \<in> set bucket \<longrightarrow> 0 < unat c \<and> unat c \<le> n))"


definition docs_keyed :: "(string, Document) go_map \<Rightarrow> bool" where
  "docs_keyed docs = (\<forall>k d. (k, d) \<in> set docs \<longrightarrow> k = getBasePath (Path d))"

text \<open>
  The order the sorting loops establish: greater score first, and with equal scores the
  smaller path first. \<open>rank_key\<close> is the same order as a lexicographic key.
\<close>

definition ranks_before :: "string \<times> go_int \<Rightarrow> string \<times> go_int \<Rightarrow> bool" where
  "ranks_before a b = (sint (snd b) < sint (snd a) \<or> (snd a = snd b \<and> fst a < fst b))"

definition rank_key :: "string \<times> go_int \<Rightarrow> int \<times> string" where
  "rank_key r = (- sint (snd r), fst r)"

definition sorted_upto :: "nat \<Rightarrow> (string \<times> go_int) list \<Rightarrow> bool" where
  "sorted_upto i rs =
     (sorted (map rank_key (take i rs)) \<and>
      (\<forall>a \<in> set (take i rs). \<forall>b \<in> set (drop i rs). rank_key a \<le> rank_key b))"

text \<open>Fixtures for the closed examples: a stemmer that knows English only and returns
  the word itself, and a document with a path, a title and a content.\<close>

definition stem_id :: "string \<Rightarrow> string \<Rightarrow> bool \<Rightarrow> error + string" where
  "stem_id word lang stopWords = (if lang = ''english'' then Inr word else Inl (StemErr lang))"

definition doc_at :: "string \<Rightarrow> string \<Rightarrow> string \<Rightarrow> Document" where
  "doc_at p t c = \<lparr>ID = Base p, Title = t, Content = c, Path = p, Children = [],
     Uncommitted = False, Favorite = False\<rparr>"

definition se_hello :: SearchEngine where
  "se_hello = run_ops (NewSearchEngine ascii_strings stem_id [''english'', ''klingon''])
      [Index (doc_at ''hello_world(1)'' ''Hello World!'' ''second''),
       Index (doc_at ''hello_world'' ''Hello World!'' ''first''),
       Index (doc_at ''other'' ''World world'' ''third'')]"

text \<open>
  The stems a text is indexed under: one for every word and language the stemmer accepts
  with a stem that is not empty. \<open>cleared\<close>: the bucket of the stem, if there is one, does
  not hold the path. \<open>own\<close>: the bucket of the stem, if there is one, holds no other path.
\<close>

definition stems_in ::
  "(string \<Rightarrow> string \<Rightarrow> bool \<Rightarrow> error + string) \<Rightarrow> (string \<Rightarrow> string) \<Rightarrow> string list \<Rightarrow> string list
     \<Rightarrow> string set" where
  "stems_in stem lower langs ws =
     {stemmed. \<exists>word \<in> set ws. \<exists>lang \<in> set langs.
        stem (normalize_word lower word) lang False = Inr stemmed \<and> stemmed \<noteq> []}"

definition text_stems :: "SearchEngine \<Rightarrow> string \<Rightarrow> string set" where
  "text_stems se text =
     stems_in (stemmer se) (ToLower (strings se)) (languages se) (Fields (strings se) text)"

definition cleared :: "string \<Rightarrow> string \<Rightarrow> (string, (string, go_int) go_map) go_map \<Rightarrow> bool" where
  "cleared stemmed fullPath idx =
     (\<forall>bucket. map_of idx stemmed = Some bucket \<longrightarrow> map_of bucket fullPath = None)"

definition own :: "string \<Rightarrow> string \<Rightarrow> (string, (string, go_int) go_map) go_map \<Rightarrow> bool" where
  "own stemmed fullPath idx =
     (\<forall>bucket. map_of idx stemmed = Some bucket \<longrightarrow> fst ` set bucket \<subseteq> {fullPath})"

text \<open>A second fixture: two languages that both stem, the second one to the first three
  letters of the word.\<close>

definition stem_two :: "string \<Rightarrow> string \<Rightarrow> bool \<Rightarrow> error + string" where
  "stem_two word lang stopWords =
     (if lang = ''english'' then Inr word
      else if lang = ''short'' then Inr (take 3 word)
      else Inl (StemErr lang))"

definition se_two :: SearchEngine where
  "se_two = run_ops (NewSearchEngine ascii_strings stem_two [''english'', ''short''])
      [Index (doc_at ''b'' ''World'' ''map'')]"

text \<open>
  The score the text describes for a query and an index key: the sum, over the words of
  the query and the languages, of the count the bucket of the stem holds for the key
  (\<open>hit\<close>; nothing when the stemmer fails, the stem is empty or there is no bucket). The
  counts are \<open>int\<close>s, the sum wraps as \<open>results[docPath] += count\<close> does. \<open>matching\<close>: the
  keys some bucket of a stem of the query holds. \<open>ranks_above\<close>: the greater score, or the
  same score and the smaller key.
\<close>

definition tally :: "(string, go_int) go_map \<Rightarrow> string \<Rightarrow> go_int" where
  "tally m k = (case map_of m k of None \<Rightarrow> 0 | Some c \<Rightarrow> c)"

definition hit ::
  "(string \<Rightarrow> string \<Rightarrow> bool \<Rightarrow> error + string) \<Rightarrow> (string, (string, go_int) go_map) go_map
     \<Rightarrow> string \<Rightarrow> string \<Rightarrow> string \<Rightarrow> go_int" where
  "hit stem idx docPath word lang =
     (case stem word lang False of
        Inl err \<Rightarrow> 0
      | Inr stemmed \<Rightarrow>
          if stemmed = [] then 0
          else (case map_of idx stemmed of None \<Rightarrow> 0 | Some bucket \<Rightarrow> tally bucket docPath))"

definition total_score :: "SearchEngine \<Rightarrow> string \<Rightarrow> string \<Rightarrow> go_int" where
  "total_score se query docPath =
     sum_list (map (\<lambda>word. sum_list (map (hit (stemmer se) (index se) docPath
                                             (normalize_word (ToLower (strings se)) word))
                                        (languages se)))
                   (Fields (strings se) query))"

definition matching :: "SearchEngine \<Rightarrow> string \<Rightarrow> string set" where
  "matching se query =
     {docPath. \<exists>stemmed \<in> text_stems se query. \<exists>bucket.
        map_of (index se) stemmed = Some bucket \<and> map_of bucket docPath \<noteq> None}"

definition ranks_above :: "SearchEngine \<Rightarrow> string \<Rightarrow> string \<Rightarrow> string \<Rightarrow> bool" where
  "ranks_above se query k k' =
     (sint (total_score se query k') < sint (total_score se query k) \<or>
      (total_score se query k = total_score se query k' \<and> k < k'))"

definition buckets_distinct :: "(string, (string, go_int) go_map) go_map \<Rightarrow> bool" where
  "buckets_distinct idx =
     (\<forall>stemmed bucket. map_of idx stemmed = Some bucket \<longrightarrow> distinct (map fst bucket))"

definition same_maps :: "SearchEngine \<Rightarrow> SearchEngine \<Rightarrow> bool" where
  "same_maps se se' =
     (stemmer se' = stemmer se \<and> strings se' = strings se \<and>
      set (languages se') = set (languages se) \<and> distinct (languages se') \<and>
      map_of (documents se') = map_of (documents se) \<and>
      (\<forall>stemmed. rel_option (\<lambda>bucket bucket'. map_of bucket' = map_of bucket \<and> distinct (map fst bucket'))
                    (map_of (index se) stemmed) (map_of (index se') stemmed)))"

text \<open>A third fixture, four documents under two languages, and the same engine with every
  map enumerated in the opposite order.\<close>

definition se_rank :: SearchEngine where
  "se_rank = run_ops (NewSearchEngine ascii_strings stem_two [''english'', ''short''])
      [Index (doc_at ''b'' ''World'' ''map''),
       Index (doc_at ''a'' ''Worldly'' ''wise''),
       Index (doc_at ''c'' ''World'' ''world''),
       Index (doc_at ''a(1)'' ''World'' ''atlas'')]"

definition shuffled :: "SearchEngine \<Rightarrow> SearchEngine" where
  "shuffled se =
     se\<lparr>index := rev (map (\<lambda>(stemmed, bucket). (stemmed, rev bucket)) (index se)),
        documents := rev (documents se),
        languages := rev (languages se)\<rparr>"

section \<open>The tree store (storage_git.go)\<close>

subsection \<open>The file system\<close>

text \<open>
  The part of the file system the store works on: a Go map from cleaned paths, relative to
  the working directory, to a directory or a regular file with its content. The working
  directory \<open>.\<close> and the root \<open>/\<close> always exist. Every path the store hands to package
  \<open>os\<close> is a result of \<open>filepath.Join\<close> or \<open>filepath.Dir\<close>, hence cleaned. Permissions,
  links and faults of the device are not modelled: a call fails for the reasons stated here
  and for no other.
\<close>

datatype entry = Directory | File string

type_synonym filesystem = "(string, entry) go_map"

definition lookup :: "filesystem \<Rightarrow> string \<Rightarrow> entry option" where
  "lookup fs p = (if p = ''.'' \<or> p = ''/'' then Some Directory else map_of fs p)"

text \<open>The path itself or a path below it.\<close>

definition within :: "string \<Rightarrow> string \<Rightarrow> bool" where
  "within p k = (k = p \<or> prefix (p @ ''/'') k)"

text \<open>
  \<open>os.Stat\<close>, as far as the store reads its result: the entry, or \<open>ENOENT\<close> (the error
  \<open>os.IsNotExist\<close> recognises), or \<open>ENOTDIR\<close> when the path leads through a regular file.
\<close>

datatype stat = Found entry | ENOENT | ENOTDIR

definition Stat :: "filesystem \<Rightarrow> string \<Rightarrow> stat" where
  "Stat fs p =
     (case lookup fs p of
        Some e \<Rightarrow> Found e
      | None \<Rightarrow>
          (if list_ex (\<lambda>(k, e). e \<noteq> Directory \<and> prefix (k @ ''/'') p) fs then ENOTDIR
           else ENOENT))"

text \<open>\<open>os.Mkdir\<close>: the path must be new and its parent a directory.\<close>

definition Mkdir :: "filesystem \<Rightarrow> string \<Rightarrow> error + filesystem" where
  "Mkdir fs p =
     (if lookup fs p \<noteq> None then Inl (IOErr ''file exists'')
      else if lookup fs (Dir p) \<noteq> Some Directory then Inl (IOErr ''no such file or directory'')
      else Inr (AList.update p Directory fs))"

text \<open>\<open>os.WriteFile\<close>: creates the file in an existing directory or replaces its content.\<close>

definition WriteFile :: "filesystem \<Rightarrow> string \<Rightarrow> string \<Rightarrow> error + filesystem" where
  "WriteFile fs p content =
     (case lookup fs p of
        Some Directory \<Rightarrow> Inl (IOErr ''is a directory'')
      | Some (File old) \<Rightarrow> Inr (AList.update p (File content) fs)
      | None \<Rightarrow>
          (if lookup fs (Dir p) = Some Directory then Inr (AList.update p (File content) fs)
           else Inl (IOErr ''no such file or directory'')))"

text \<open>\<open>os.RemoveAll\<close>: removes the path and everything below it; a missing path is no error.\<close>

definition RemoveAll :: "filesystem \<Rightarrow> string \<Rightarrow> filesystem" where
  "RemoveAll fs p = filter (\<lambda>(k, e). \<not> within p k) fs"

text \<open>
  \<open>os.Rename\<close>. Go refuses a new name that is an existing directory before it calls
  rename(2), also when the new name is the old one. Otherwise the source must exist; a
  source renamed to itself is left alone; the parent of the target must be a directory; a
  directory is not moved below itself and does not replace a file; a file replaces a file.
  Everything below the source moves with it.
\<close>

definition Rename :: "filesystem \<Rightarrow> string \<Rightarrow> string \<Rightarrow> error + filesystem" where
  "Rename fs old new =
     (if lookup fs new = Some Directory then
        (if lookup fs old = None then Inl (IOErr ''no such file or directory'')
         else Inl (IOErr ''file exists''))
      else case lookup fs old of
        None \<Rightarrow> Inl (IOErr ''no such file or directory'')
      | Some e \<Rightarrow>
          if old = new then Inr fs
          else if lookup fs (Dir new) \<noteq> Some Directory then Inl (IOErr ''no such file or directory'')
          else if prefix (old @ ''/'') new then Inl (IOErr ''invalid argument'')
          else if lookup fs new \<noteq> None \<and> e = Directory then Inl (IOErr ''not a directory'')
          else Inr (map (\<lambda>(k, x). if within old k then (new @ drop (length old) k, x) else (k, x))
                      (filter (\<lambda>(k, x). k \<noteq> new) fs)))"

text \<open>\<open>os.ReadDir\<close>: the entries of a directory with their names, sorted by name.\<close>

definition ReadDir :: "filesystem \<Rightarrow> string \<Rightarrow> error + (string \<times> entry) list" where
  "ReadDir fs p =
     (if lookup fs p \<noteq> Some Directory then Inl (IOErr ''no such directory'')
      else Inr (sort_key fst
                  (map (\<lambda>(k, e). (Base k, e)) (filter (\<lambda>(k, e). Dir k = p \<and> k \<noteq> p) fs))))"

text \<open>\<open>os.ReadFile\<close>.\<close>

definition ReadFile :: "filesystem \<Rightarrow> string \<Rightarrow> error + string" where
  "ReadFile fs p =
     (case lookup fs p of
        Some (File content) \<Rightarrow> Inr content
      | Some Directory \<Rightarrow> Inl (IOErr ''is a directory'')
      | None \<Rightarrow> Inl (IOErr ''no such file or directory''))"

subsection \<open>The store\<close>

text \<open>
  \<open>GitStorage\<close>: the base directory and the documents directory below it. Of the
  repository the store's operations need two answers, which are fields here: whether
  \<open>commitChanges\<close> with a message fails, and what \<open>isUncommited\<close> reports for a document.
  The commit log itself is not part of this model. \<open>unidecode\<close> is the transliteration of
  package go-unidecode, which returns ASCII text.
\<close>

record GitStorage =
  baseDir :: string
  docsDir :: string
  commitChanges :: "string \<Rightarrow> error option"
  isUncommited :: "string \<Rightarrow> error + bool"
  unidecode :: "string \<Rightarrow> string"

definition NewGitStorage ::
  "string \<Rightarrow> (string \<Rightarrow> error option) \<Rightarrow> (string \<Rightarrow> error + bool) \<Rightarrow> (string \<Rightarrow> string) \<Rightarrow> GitStorage" where
  "NewGitStorage base commit status translit =
     \<lparr>baseDir = base, docsDir = Join [base, ''docs''], commitChanges = commit,
      isUncommited = status, unidecode = translit\<rparr>"

text \<open>\<open>fmt.Sprintf("%d", n)\<close> for a counter that counts up from 1.\<close>

function show_nat :: "nat \<Rightarrow> string" where
  "show_nat n =
     (if n < 10 then [''0123456789'' ! n]
      else show_nat (n div 10) @ [''0123456789'' ! (n mod 10)])"
  by pat_completeness auto
termination
  by (relation "measure id") auto

declare show_nat.simps [simp del]

text \<open>The regular expression \<open>[^a-zA-Z0-9_]+\<close> matches what \<open>is_word_char\<close> rejects.\<close>

definition is_word_char :: "char \<Rightarrow> bool" where
  "is_word_char c =
     (c \<in> set ''abcdefghijklmnopqrstuvwxyzABCDEFGHIJKLMNOPQRSTUVWXYZ0123456789_'')"

text \<open>The first lines of \<open>generateID\<close>: transliterate, put an underscore for every space,
  drop what the regular expression matches, lower the case. What the regular expression
  leaves is ASCII, where \<open>strings.ToLower\<close> lowers the letters \<open>A\<close> to \<open>Z\<close>.\<close>

definition slug :: "GitStorage \<Rightarrow> string \<Rightarrow> string" where
  "slug gs title =
     ascii_ToLower (filter is_word_char
       (map (\<lambda>c. if c = CHR '' '' then CHR ''_'' else c) (unidecode gs title)))"

text \<open>
  The loop of \<open>generateID\<close>. It ends when the candidate is not \<open>root\<close> and \<open>os.Stat\<close>
  reports that nothing exists at its path; any other answer, also an error that is not
  \<open>ENOENT\<close>, tries the next candidate. The loop need not end, hence the option.
\<close>

partial_function (option) generateID_loop ::
  "GitStorage \<Rightarrow> filesystem \<Rightarrow> string \<Rightarrow> string \<Rightarrow> string \<Rightarrow> nat \<Rightarrow> string option" where
  "generateID_loop gs fs parentPath baseID ident counter =
     (if ident \<noteq> ''root'' \<and> Stat fs (Join [docsDir gs, parentPath, ident]) = ENOENT
      then Some ident
      else generateID_loop gs fs parentPath baseID
             (baseID @ ''('' @ show_nat counter @ '')'') (counter + 1))"

declare generateID_loop.simps [code]

definition generateID :: "GitStorage \<Rightarrow> filesystem \<Rightarrow> string \<Rightarrow> string \<Rightarrow> string option" where
  "generateID gs fs parentPath title =
     generateID_loop gs fs parentPath (slug gs title) (slug gs title) 1"

text \<open>\<open>getTitle\<close>: the name of the first regular file of the directory, without \<open>.md\<close>.\<close>

definition getTitle :: "GitStorage \<Rightarrow> filesystem \<Rightarrow> string \<Rightarrow> error + string" where
  "getTitle gs fs path =
     (case ReadDir fs (Join [docsDir gs, path]) of
        Inl err \<Rightarrow> Inl err
      | Inr files \<Rightarrow>
          (case filter (\<lambda>(name, e). e \<noteq> Directory) files of
             [] \<Rightarrow> Inl (IOErr ''title not found'')
           | (name, e) # others \<Rightarrow> Inr (TrimSuffix name ''.md'')))"

text \<open>\<open>hasChildren\<close>: whether the directory of the document holds a directory.\<close>

definition hasChildren :: "GitStorage \<Rightarrow> filesystem \<Rightarrow> string \<Rightarrow> error + bool" where
  "hasChildren gs fs docPath =
     (case ReadDir fs (Join [docsDir gs, docPath]) of
        Inl err \<Rightarrow> Inl err
      | Inr files \<Rightarrow> Inr (list_ex (\<lambda>(name, e). e = Directory) files))"

text \<open>
  \<open>getChildren\<close>: a summary for every directory below the document. The inner loop keeps
  the name of the last regular file as the title.
\<close>

fun child_title :: "(string \<times> entry) list \<Rightarrow> string \<Rightarrow> string" where
  "child_title [] title = title"
| "child_title ((name, e) # others) title =
     (if e \<noteq> Directory then child_title others (TrimSuffix name ''.md'')
      else child_title others title)"

fun children_of ::
  "filesystem \<Rightarrow> string \<Rightarrow> string \<Rightarrow> (string \<times> entry) list \<Rightarrow> error + ShortDocument list" where
  "children_of fs fullPath docPath [] = Inr []"
| "children_of fs fullPath docPath ((name, e) # files) =
     (if e = Directory then
        (case ReadDir fs (Join [fullPath, name]) of
           Inl err \<Rightarrow> Inl err
         | Inr childTitle \<Rightarrow>
             (case children_of fs fullPath docPath files of
                Inl err \<Rightarrow> Inl err
              | Inr children \<Rightarrow>
                  Inr (\<lparr>sID = name, sTitle = child_title childTitle [],
                        HasChildren = list_ex (\<lambda>(n, x). x = Directory) childTitle,
                        sPath = Join [docPath, name]\<rparr> # children)))
      else children_of fs fullPath docPath files)"

definition getChildren :: "GitStorage \<Rightarrow> filesystem \<Rightarrow> string \<Rightarrow> error + ShortDocument list" where
  "getChildren gs fs docPath =
     (case ReadDir fs (Join [docsDir gs, docPath]) of
        Inl err \<Rightarrow> Inl err
      | Inr files \<Rightarrow> children_of fs (Join [docsDir gs, docPath]) docPath files)"

text \<open>\<open>readDocument\<close>: the document of the first regular file of the directory.\<close>

definition readDocument :: "GitStorage \<Rightarrow> filesystem \<Rightarrow> string \<Rightarrow> error + Document" where
  "readDocument gs fs docPath =
     (case ReadDir fs (Join [docsDir gs, docPath]) of
        Inl err \<Rightarrow> Inl err
      | Inr files \<Rightarrow>
          (case filter (\<lambda>(name, e). e \<noteq> Directory) files of
             [] \<Rightarrow> Inl (DocumentNotFound docPath)
           | (name, e) # others \<Rightarrow>
               (case getChildren gs fs docPath of
                  Inl err \<Rightarrow> Inl err
                | Inr children \<Rightarrow>
                    (case ReadFile fs (Join [docsDir gs, docPath, name]) of
                       Inl err \<Rightarrow> Inl err
                     | Inr data \<Rightarrow>
                         Inr \<lparr>ID = Base docPath, Title = TrimSuffix name ''.md'', Content = data,
                              Path = docPath, Children = children, Uncommitted = False,
                              Favorite = False\<rparr>))))"

definition GetDocument :: "GitStorage \<Rightarrow> filesystem \<Rightarrow> string \<Rightarrow> error + Document" where
  "GetDocument gs fs docPath =
     (if Stat fs (Join [docsDir gs, docPath]) = ENOENT then Inl (DocumentNotFound docPath)
      else case readDocument gs fs docPath of
             Inl err \<Rightarrow> Inl err
           | Inr doc \<Rightarrow>
               (case isUncommited gs docPath of
                  Inl err \<Rightarrow> Inl err
                | Inr uncommited \<Rightarrow> Inr (doc\<lparr>Uncommitted := uncommited\<rparr>)))"

text \<open>
  \<open>CreateDocument\<close>. The result is the file system left behind and the document or the
  error; there is no result when the loop of \<open>generateID\<close> does not end.
\<close>

definition CreateDocument ::
  "GitStorage \<Rightarrow> filesystem \<Rightarrow> string \<Rightarrow> string \<Rightarrow> string \<Rightarrow> (filesystem \<times> (error + Document)) option" where
  "CreateDocument gs fs parentPath title content =
     (case generateID gs fs parentPath title of
        None \<Rightarrow> None
      | Some ident \<Rightarrow>
          Some
            (let fullPath = Join [docsDir gs, parentPath, ident]
             in case Mkdir fs fullPath of
                  Inl err \<Rightarrow> (fs, Inl MkDirErr)
                | Inr fs1 \<Rightarrow>
                    (case WriteFile fs1 (Join [fullPath, title @ ''.md'']) content of
                       Inl err \<Rightarrow> (RemoveAll fs1 fullPath, Inl err)
                     | Inr fs2 \<Rightarrow>
                         (let newDocPath = Join [parentPath, ident]
                          in case commitChanges gs (''Create document: '' @ newDocPath) of
                               Some err \<Rightarrow> (RemoveAll fs2 fullPath, Inl CommitErr)
                             | None \<Rightarrow>
                                 (case getChildren gs fs2 parentPath of
                                    Inl err \<Rightarrow> (fs2, Inl err)
                                  | Inr children \<Rightarrow>
                                      (fs2, Inr \<lparr>ID = ident, Title = title, Content = content,
                                                Path = newDocPath, Children = children,
                                                Uncommitted = False, Favorite = False\<rparr>))))))"

text \<open>\<open>DeleteDocument\<close> of the store.\<close>

definition DeleteDocument_store :: "GitStorage \<Rightarrow> filesystem \<Rightarrow> string \<Rightarrow> filesystem \<times> error option" where
  "DeleteDocument_store gs fs path =
     (let fullPath = Join [docsDir gs, path]
      in case hasChildren gs fs path of
           Inl err \<Rightarrow> (fs, Some err)
         | Inr has \<Rightarrow>
             if has then (fs, Some HasChildrenErr)
             else (let fs1 = RemoveAll fs fullPath
                   in case commitChanges gs (''Delete document: '' @ path) of
                        Some err \<Rightarrow> (fs1, Some CommitErr)
                      | None \<Rightarrow> (fs1, None)))"

text \<open>
  \<open>UpdateDocument\<close>. With a new title the content file is renamed, then the directory of
  the node, to the identifier \<open>generateID\<close> returns for the path of the document itself.
\<close>

definition UpdateDocument ::
  "GitStorage \<Rightarrow> filesystem \<Rightarrow> string \<Rightarrow> string \<Rightarrow> string \<Rightarrow> bool
     \<Rightarrow> (filesystem \<times> (error + Document)) option" where
  "UpdateDocument gs fs docPath title content commit =
     (let fullPath = Join [docsDir gs, docPath];
          finish = (\<lambda>fs1 fullPath1 docPath1.
            case WriteFile fs1 (Join [fullPath1, title @ ''.md'']) content of
              Inl err \<Rightarrow> (fs1, Inl err)
            | Inr fs2 \<Rightarrow>
                (case (if commit then commitChanges gs (''Update document: '' @ docPath1) else None) of
                   Some err \<Rightarrow> (fs2, Inl CommitErr)
                 | None \<Rightarrow>
                     (case getChildren gs fs2 docPath1 of
                        Inl err \<Rightarrow> (fs2, Inl err)
                      | Inr children \<Rightarrow>
                          (fs2, Inr \<lparr>ID = Base docPath1, Title = title, Content = content,
                                    Path = docPath1, Children = children, Uncommitted = False,
                                    Favorite = False\<rparr>))))
      in if Stat fs fullPath = ENOENT then Some (fs, Inl (DocumentNotFound docPath))
         else case GetDocument gs fs docPath of
                Inl err \<Rightarrow> Some (fs, Inl err)
              | Inr currentDoc \<Rightarrow>
                  if title \<noteq> Title currentDoc then
                    (case getTitle gs fs docPath of
                       Inl err \<Rightarrow> Some (fs, Inl err)
                     | Inr oldTitle \<Rightarrow>
                         (case Rename fs (Join [docsDir gs, docPath, oldTitle @ ''.md''])
                                 (Join [docsDir gs, docPath, title @ ''.md'']) of
                            Inl err \<Rightarrow> Some (fs, Inl err)
                          | Inr fs1 \<Rightarrow>
                              (case generateID gs fs1 docPath title of
                                 None \<Rightarrow> None
                               | Some newID \<Rightarrow>
                                   (let newPath = Join [Dir fullPath, newID]
                                    in case Rename fs1 fullPath newPath of
                                         Inl err \<Rightarrow> Some (fs1, Inl err)
                                       | Inr fs2 \<Rightarrow>
                                           Some (finish fs2 newPath (Join [Dir docPath, newID]))))))
                  else Some (finish fs fullPath docPath))"


text \<open>
  Fixtures for the closed examples: a store below \<open>base\<close> whose commits succeed and one whose
  commits fail, both with the identity as transliteration (the titles are ASCII); a tree
  with the document \<open>a\<close> and its child \<open>a/b\<close>; a tree with the two root documents \<open>a\<close>
  and \<open>b\<close>.
\<close>

definition gs_demo :: GitStorage where
  "gs_demo = NewGitStorage ''base'' (\<lambda>message. None) (\<lambda>docPath. Inr False) (\<lambda>title. title)"

definition gs_failing :: GitStorage where
  "gs_failing = NewGitStorage ''base'' (\<lambda>message. Some CommitErr) (\<lambda>docPath. Inr False) (\<lambda>title. title)"

definition fs_demo :: filesystem where
  "fs_demo =
     [(''base'', Directory), (''base/docs'', Directory),
      (''base/docs/a'', Directory), (''base/docs/a/A.md'', File ''text of a''),
      (''base/docs/a/b'', Directory), (''base/docs/a/b/B.md'', File ''text of b'')]"

definition fs_siblings :: filesystem where
  "fs_siblings =
     [(''base'', Directory), (''base/docs'', Directory),
      (''base/docs/a'', Directory), (''base/docs/a/A.md'', File ''text of a''),
      (''base/docs/b'', Directory), (''base/docs/b/B.md'', File ''text of b'')]"


section \<open>Properties of the search index\<close>

subsection \<open>Association lists\<close>

lemma set_update_cases:
  "(k', v') \<in> set (AList.update k v al) \<Longrightarrow> (k', v') = (k, v) \<or> (k', v') \<in> set al"
  by (induction al) (auto split: if_splits)

lemma set_delete_subset: "set (AList.delete k al) \<subseteq> set al"
  by (auto simp: AList.delete_eq)

subsection \<open>The counts stay within the number of increments\<close>

lemma counts_upto_mono: "counts_upto n idx \<Longrightarrow> n \<le> m \<Longrightarrow> counts_upto m idx"
  unfolding counts_upto_def by fastforce

lemma unat_succ_bounded:
  fixes c :: go_int
  assumes "unat c \<le> n" "n + 1 < 2 ^ 64"
  shows "unat (c + 1) = unat c + 1"
proof -
  have "unat c + unat (1 :: go_int) < 2 ^ LENGTH(64)" using assms by simp
  then have "unat (c + 1) = unat c + unat (1 :: go_int)" by (simp only: unat_add_lem [THEN iffD1])
  then show ?thesis by simp
qed

lemma counts_upto_bump:
  assumes inv: "counts_upto n idx" and bound: "n + 1 < 2 ^ 64"
  shows "counts_upto (n + 1) (bump stemmed fullPath idx)"
proof -
  define bucket where "bucket = (case map_of idx stemmed of None \<Rightarrow> [] | Some b \<Rightarrow> b)"
  define c where "c = (case map_of bucket fullPath of None \<Rightarrow> (0 :: go_int) | Some c \<Rightarrow> c)"
  have old: "\<forall>p c. (p, c) \<in> set bucket \<longrightarrow> 0 < unat c \<and> unat c \<le> n"
  proof (cases "map_of idx stemmed")
    case None then show ?thesis by (simp add: bucket_def)
  next
    case (Some b)
    then have "(stemmed, b) \<in> set idx" by (rule map_of_SomeD)
    with inv Some show ?thesis by (auto simp: bucket_def counts_upto_def)
  qed
  have cb: "unat c \<le> n"
  proof (cases "map_of bucket fullPath")
    case None then show ?thesis by (simp add: c_def)
  next
    case (Some d)
    then have "(fullPath, d) \<in> set bucket" by (rule map_of_SomeD)
    with old Some show ?thesis by (auto simp: c_def)
  qed
  have c1: "unat (c + 1) = unat c + 1" using cb bound by (rule unat_succ_bounded)
  have new: "\<forall>p d. (p, d) \<in> set (AList.update fullPath (c + 1) bucket) \<longrightarrow> 0 < unat d \<and> unat d \<le> n + 1"
  proof (intro allI impI)
    fix p d assume "(p, d) \<in> set (AList.update fullPath (c + 1) bucket)"
    then have "d = c + 1 \<or> (p, d) \<in> set bucket" by (auto dest: set_update_cases)
    then show "0 < unat d \<and> unat d \<le> n + 1"
    proof
      assume "d = c + 1" then show ?thesis using c1 cb by simp
    next
      assume "(p, d) \<in> set bucket"
      with old have "0 < unat d \<and> unat d \<le> n" by blast
      then show ?thesis by simp
    qed
  qed
  have "counts_upto (n + 1) (AList.update stemmed (AList.update fullPath (c + 1) bucket) idx)"
    unfolding counts_upto_def
  proof (intro allI impI)
    fix s b assume "(s, b) \<in> set (AList.update stemmed (AList.update fullPath (c + 1) bucket) idx)"
    then consider "b = AList.update fullPath (c + 1) bucket" | "(s, b) \<in> set idx"
      by (auto dest: set_update_cases)
    then show "b \<noteq> [] \<and> (\<forall>p d. (p, d) \<in> set b \<longrightarrow> 0 < unat d \<and> unat d \<le> n + 1)"
    proof cases
      case 1 then show ?thesis using new by simp
    next
      case 2 with inv show ?thesis unfolding counts_upto_def by fastforce
    qed
  qed
  then show ?thesis by (simp add: bump_def bucket_def c_def Let_def)
qed

lemma counts_upto_index_word:
  "counts_upto n idx \<Longrightarrow> n + length langs < 2 ^ 64 \<Longrightarrow>
   counts_upto (n + length langs) (index_word stem fullPath word langs idx)"
proof (induction langs arbitrary: n idx)
  case Nil
  then show ?case by simp
next
  case (Cons lang langs)
  have keep: "counts_upto (n + length (lang # langs)) (index_word stem fullPath word langs idx)"
    using Cons.IH [of n idx] Cons.prems by (auto intro: counts_upto_mono)
  show ?case
  proof (cases "stem word lang False")
    case (Inl e)
    then show ?thesis using keep by simp
  next
    case (Inr stemmed)
    show ?thesis
    proof (cases "stemmed = []")
      case True
      then show ?thesis using keep Inr by simp
    next
      case False
      have "counts_upto (n + 1) (bump stemmed fullPath idx)"
        using Cons.prems by (intro counts_upto_bump) auto
      then have "counts_upto (n + 1 + length langs) (index_word stem fullPath word langs (bump stemmed fullPath idx))"
        using Cons.prems by (intro Cons.IH) auto
      then show ?thesis using Inr False by (simp add: add.commute add.left_commute)
    qed
  qed
qed

lemma counts_upto_index_words:
  "counts_upto n idx \<Longrightarrow> n + length ws * length langs < 2 ^ 64 \<Longrightarrow>
   counts_upto (n + length ws * length langs) (index_words stem lower fullPath langs ws idx)"
proof (induction ws arbitrary: n idx)
  case Nil
  then show ?case by simp
next
  case (Cons w ws)
  have "counts_upto (n + length langs) (index_word stem fullPath (normalize_word lower w) langs idx)"
    using Cons.prems by (intro counts_upto_index_word) auto
  then have "counts_upto (n + length langs + length ws * length langs)
      (index_words stem lower fullPath langs ws (index_word stem fullPath (normalize_word lower w) langs idx))"
    using Cons.prems by (intro Cons.IH) (auto simp: algebra_simps)
  then show ?case by (simp add: algebra_simps)
qed

lemma counts_upto_unlink: "counts_upto n idx \<Longrightarrow> counts_upto n (unlink stemmed fullPath idx)"
proof -
  assume inv: "counts_upto n idx"
  show ?thesis
  proof (cases "map_of idx stemmed")
    case None
    then show ?thesis using inv by (simp add: unlink_def)
  next
    case (Some bucket)
    then have mem: "(stemmed, bucket) \<in> set idx" by (rule map_of_SomeD)
    have sub: "set (AList.delete fullPath bucket) \<subseteq> set bucket" by (rule set_delete_subset)
    show ?thesis
    proof (cases "AList.delete fullPath bucket = []")
      case True
      have "counts_upto n (AList.delete stemmed idx)"
        using inv set_delete_subset [of stemmed idx] unfolding counts_upto_def by blast
      then show ?thesis using Some True by (simp add: unlink_def)
    next
      case False
      have "counts_upto n (AList.update stemmed (AList.delete fullPath bucket) idx)"
        unfolding counts_upto_def
      proof (intro allI impI)
        fix s b assume "(s, b) \<in> set (AList.update stemmed (AList.delete fullPath bucket) idx)"
        then consider "b = AList.delete fullPath bucket" | "(s, b) \<in> set idx"
          by (auto dest: set_update_cases)
        then show "b \<noteq> [] \<and> (\<forall>p d. (p, d) \<in> set b \<longrightarrow> 0 < unat d \<and> unat d \<le> n)"
        proof cases
          case 1
          have old: "\<And>p c. (p, c) \<in> set bucket \<Longrightarrow> 0 < unat c \<and> unat c \<le> n"
            using mem inv unfolding counts_upto_def by blast
          have "0 < unat d \<and> unat d \<le> n" if "(p, d) \<in> set b" for p d
          proof -
            from that 1 sub have "(p, d) \<in> set bucket" by blast
            then show ?thesis by (rule old)
          qed
          then show ?thesis using 1 False by auto
        next
          case 2 with inv show ?thesis unfolding counts_upto_def by blast
        qed
      qed
      then show ?thesis using Some False by (simp add: unlink_def)
    qed
  qed
qed

lemma counts_upto_unindex_words:
  "counts_upto n idx \<Longrightarrow> counts_upto n (unindex_words stem lower fullPath lang ws idx)"
  by (induction ws arbitrary: idx) (auto split: sum.splits intro: counts_upto_unlink)

lemma counts_upto_unindex_langs:
  "counts_upto n idx \<Longrightarrow> counts_upto n (unindex_langs stem lower fullPath ws langs idx)"
  by (induction langs arbitrary: idx) (auto intro: counts_upto_unindex_words)

lemma languages_IndexDocument [simp]: "languages (fst (IndexDocument se doc)) = languages se"
  by (simp add: IndexDocument_def Let_def)

lemma languages_DeleteDocument [simp]: "languages (fst (DeleteDocument se p)) = languages se"
  by (simp add: DeleteDocument_def Let_def split: option.splits)

lemma stemmer_IndexDocument [simp]: "stemmer (fst (IndexDocument se doc)) = stemmer se"
  by (simp add: IndexDocument_def Let_def)

lemma stemmer_DeleteDocument [simp]: "stemmer (fst (DeleteDocument se p)) = stemmer se"
  by (simp add: DeleteDocument_def Let_def split: option.splits)

lemma languages_apply_op [simp]: "languages (apply_op se op) = languages se"
  by (cases op) simp_all

lemma strings_apply_op [simp]: "strings (apply_op se op) = strings se"
  by (cases op) (simp_all add: IndexDocument_def DeleteDocument_def Let_def split: option.splits)

lemma counts_upto_apply_op:
  assumes "counts_upto n (index se)" "n + increments (strings se) (languages se) op < 2 ^ 64"
  shows "counts_upto (n + increments (strings se) (languages se) op) (index (apply_op se op))"
proof (cases op)
  case (Index doc)
  then show ?thesis
    using assms counts_upto_index_words [of n "index se" "Fields (strings se) (Title doc @ '' '' @ Content doc)" "languages se"]
    by (simp add: IndexDocument_def Let_def)
next
  case (Delete p)
  then show ?thesis using assms
    by (auto simp: DeleteDocument_def Let_def counts_upto_unindex_langs split: option.splits)
qed

lemma counts_upto_run_ops:
  "counts_upto n (index se) \<Longrightarrow> n + tokens_indexed (strings se) (languages se) ops < 2 ^ 64 \<Longrightarrow>
   counts_upto (n + tokens_indexed (strings se) (languages se) ops) (index (run_ops se ops))"
proof (induction ops arbitrary: n se)
  case Nil
  then show ?case by (simp add: run_ops_def tokens_indexed_def)
next
  case (Cons op ops)
  have "counts_upto (n + increments (strings se) (languages se) op) (index (apply_op se op))"
    using Cons.prems by (intro counts_upto_apply_op) (auto simp: tokens_indexed_def)
  then have "counts_upto (n + increments (strings se) (languages se) op + tokens_indexed (strings (apply_op se op)) (languages (apply_op se op)) ops)
      (index (run_ops (apply_op se op) ops))"
    using Cons.prems by (intro Cons.IH) (auto simp: tokens_indexed_def)
  then show ?case by (simp add: run_ops_def tokens_indexed_def add.assoc)
qed

lemma positive_of_unat:
  fixes c :: go_int
  assumes "0 < unat c" "unat c < 2 ^ 63"
  shows "0 <s c"
proof -
  have "int (unat c) < int (2 ^ 63)" using assms(2) by (simp only: of_nat_less_iff)
  then have lt: "uint c < 2 ^ 63" by (simp only: uint_nat of_nat_power of_nat_numeral)
  have ge: "- (2 ^ 63) \<le> uint c"
    by (rule order_trans [of _ 0]) simp_all
  have "sint c = signed_take_bit 63 (uint c)" by (simp add: sint_uint)
  also have "\<dots> = uint c" using ge lt by (rule signed_take_bit_int_eq_self)
  finally have "sint c = uint c" .
  moreover have "0 < uint c" using assms(1) by (simp only: uint_nat of_nat_0_less_iff)
  ultimately show ?thesis by (simp add: word_sless_alt)
qed

lemma index_ok_of_counts_upto:
  assumes "counts_upto n idx" "n < 2 ^ 63"
  shows "index_ok idx"
  unfolding index_ok_def list_all_iff
proof (intro ballI, clarify)
  fix stemmed bucket assume mem: "(stemmed, bucket) \<in> set idx"
  with assms(1) have ne: "bucket \<noteq> []"
    and cnt: "\<And>p c. (p, c) \<in> set bucket \<Longrightarrow> 0 < unat c \<and> unat c \<le> n"
    unfolding counts_upto_def by blast+
  obtain p c where pc: "(p, c) \<in> set bucket" using ne by (cases bucket) auto
  then have "0 <s c" using cnt [OF pc] assms(2) by (intro positive_of_unat) auto
  then show "list_ex (\<lambda>(p, c). 0 <s c) bucket" using pc by (auto simp: list_ex_iff)
qed

lemma update_not_Nil [simp]: "[] \<noteq> AList.update k v al"
  using AList.update_nonempty [of k v al] by metis

lemma buckets_filled_bump: "buckets_filled idx \<Longrightarrow> buckets_filled (bump stemmed fullPath idx)"
  unfolding buckets_filled_def list_all_iff bump_def Let_def
  by (auto dest!: set_update_cases)

lemma buckets_filled_index_word:
  "buckets_filled idx \<Longrightarrow> buckets_filled (index_word stem fullPath word langs idx)"
  by (induction langs arbitrary: idx) (auto split: sum.splits intro: buckets_filled_bump)

lemma buckets_filled_index_words:
  "buckets_filled idx \<Longrightarrow> buckets_filled (index_words stem lower fullPath langs ws idx)"
  by (induction ws arbitrary: idx) (auto intro: buckets_filled_index_word)

lemma buckets_filled_unlink: "buckets_filled idx \<Longrightarrow> buckets_filled (unlink stemmed fullPath idx)"
  unfolding buckets_filled_def list_all_iff unlink_def Let_def
  using set_delete_subset [of stemmed idx]
  by (auto dest!: set_update_cases split: option.splits)

lemma buckets_filled_unindex_words:
  "buckets_filled idx \<Longrightarrow> buckets_filled (unindex_words stem lower fullPath lang ws idx)"
  by (induction ws arbitrary: idx) (auto split: sum.splits intro: buckets_filled_unlink)

lemma buckets_filled_unindex_langs:
  "buckets_filled idx \<Longrightarrow> buckets_filled (unindex_langs stem lower fullPath ws langs idx)"
  by (induction langs arbitrary: idx) (auto intro: buckets_filled_unindex_words)

lemma buckets_filled_apply_op:
  "buckets_filled (index se) \<Longrightarrow> buckets_filled (index (apply_op se op))"
  by (cases op)
     (auto simp: IndexDocument_def DeleteDocument_def Let_def buckets_filled_index_words
        buckets_filled_unindex_langs split: option.splits)

lemma buckets_filled_run_ops:
  "buckets_filled (index se) \<Longrightarrow> buckets_filled (index (run_ops se ops))"
  unfolding run_ops_def
  by (induction ops arbitrary: se) (auto intro: buckets_filled_apply_op)

lemma languages_NewSearchEngine [simp]: "languages (NewSearchEngine strs stem langs) = remdups langs"
  by (simp add: NewSearchEngine_def)

lemma strings_NewSearchEngine [simp]: "strings (NewSearchEngine strs stem langs) = strs"
  by (simp add: NewSearchEngine_def)


subsection \<open>Stored documents are keyed by their own path\<close>

lemma docs_keyed_apply_op: "docs_keyed (documents se) \<Longrightarrow> docs_keyed (documents (apply_op se op))"
proof (cases op)
  case (Index doc)
  assume "docs_keyed (documents se)"
  then show ?thesis using Index
    by (auto simp: docs_keyed_def IndexDocument_def Let_def dest!: set_update_cases)
next
  case (Delete p)
  assume "docs_keyed (documents se)"
  then show ?thesis using Delete set_delete_subset [of "getBasePath p" "documents se"]
    by (auto simp: docs_keyed_def DeleteDocument_def Let_def split: option.splits)
qed

lemma docs_keyed_run_ops: "docs_keyed (documents se) \<Longrightarrow> docs_keyed (documents (run_ops se ops))"
  unfolding run_ops_def
  by (induction ops arbitrary: se) (auto intro: docs_keyed_apply_op)

lemma page_docs_stored: "d \<in> set (page_docs docs rs) \<Longrightarrow> \<exists>k. map_of docs k = Some d"
  by (induction rs) (auto split: option.splits)

lemma Search_returns_stored:
  assumes "Search se query page pageSize = Returns (docs, tot, err)" "d \<in> set docs"
  shows "\<exists>k. map_of (documents se) k = Some d"
  using assms
  by (auto simp: Search_def Let_def split: if_splits dest: page_docs_stored)

lemma Search_returns_no_error:
  "Search se query page pageSize = Returns (docs, tot, err) \<Longrightarrow> err = None"
  by (auto simp: Search_def Let_def split: if_splits)


subsection \<open>The sorting loops\<close>

lemma sint_eq_iff: "sint (a :: go_int) = sint b \<longleftrightarrow> a = b"
  by (auto intro: signed_word_eqI)

lemma exchange_iff: "exchange ri rj \<longleftrightarrow> rank_key rj < rank_key ri"
  using sint_eq_iff [of "snd ri" "snd rj"]
  by (auto simp: exchange_def rank_key_def less_prod_def)

lemma inj_rank_key: "rank_key a = rank_key b \<Longrightarrow> a = b"
  by (cases a, cases b) (simp add: rank_key_def sint_eq_iff)

lemma mset_sort_step: "i < length rs \<Longrightarrow> j < length rs \<Longrightarrow> mset (sort_step rs i j) = mset rs"
  by (simp add: sort_step_def mset_swap)

lemma sort_step_below: "k < i \<Longrightarrow> i < j \<Longrightarrow> sort_step rs i j ! k = rs ! k"
  by (simp add: sort_step_def)

lemma sort_inner_props:
  assumes "i < j" "i < length rs"
    and "\<forall>k. i < k \<and> k < j \<longrightarrow> rank_key (rs ! i) \<le> rank_key (rs ! k)"
  shows "mset (sort_inner rs i j) = mset rs
       \<and> (\<forall>k < i. sort_inner rs i j ! k = rs ! k)
       \<and> (\<forall>k. i < k \<and> k < length rs \<longrightarrow> rank_key (sort_inner rs i j ! i) \<le> rank_key (sort_inner rs i j ! k))"
  using assms
proof (induction rs i j rule: sort_inner.induct)
  case (1 rs i j)
  show ?case
  proof (cases "j < length rs")
    case False
    then show ?thesis using "1.prems" by (subst (1 2 3 4) sort_inner.simps) auto
  next
    case True
    let ?rs = "sort_step rs i j"
    have inv': "\<forall>k. i < k \<and> k < j + 1 \<longrightarrow> rank_key (?rs ! i) \<le> rank_key (?rs ! k)"
    proof (intro allI impI)
      fix k assume k: "i < k \<and> k < j + 1"
      show "rank_key (?rs ! i) \<le> rank_key (?rs ! k)"
      proof (cases "exchange (rs ! i) (rs ! j)")
        case ex: True
        then have lt: "rank_key (rs ! j) < rank_key (rs ! i)" by (simp add: exchange_iff)
        have i': "?rs ! i = rs ! j" using ex True "1.prems" by (simp add: sort_step_def nth_list_update)
        show ?thesis
        proof (cases "k = j")
          case True
          then have "?rs ! k = rs ! i" using ex \<open>j < length rs\<close> by (simp add: sort_step_def)
          then show ?thesis using i' lt by simp
        next
          case False
          then have "k < j" using k by simp
          then have "?rs ! k = rs ! k" using ex k by (simp add: sort_step_def)
          moreover have "rank_key (rs ! i) \<le> rank_key (rs ! k)" using "1.prems"(3) k \<open>k < j\<close> by blast
          ultimately show ?thesis using i' lt by simp
        qed
      next
        case nex: False
        then have ge: "rank_key (rs ! i) \<le> rank_key (rs ! j)" by (simp add: exchange_iff not_less)
        have same: "?rs = rs" using nex by (simp add: sort_step_def)
        show ?thesis
        proof (cases "k = j")
          case True then show ?thesis using same ge by simp
        next
          case False
          then have "k < j" using k by simp
          then show ?thesis using same "1.prems"(3) k by simp
        qed
      qed
    qed
    have IH: "mset (sort_inner ?rs i (j + 1)) = mset ?rs
       \<and> (\<forall>k < i. sort_inner ?rs i (j + 1) ! k = ?rs ! k)
       \<and> (\<forall>k. i < k \<and> k < length ?rs \<longrightarrow>
            rank_key (sort_inner ?rs i (j + 1) ! i) \<le> rank_key (sort_inner ?rs i (j + 1) ! k))"
      using "1.IH" [OF True] "1.prems" inv' by simp
    have unfold: "sort_inner rs i j = sort_inner ?rs i (j + 1)"
      using True by (subst sort_inner.simps) simp
    show ?thesis
      unfolding unfold using IH True "1.prems"
      by (simp add: mset_sort_step sort_step_below)
  qed
qed

lemma sort_inner_first:
  assumes "i < length rs"
  shows "mset (sort_inner rs i (i + 1)) = mset rs"
    and "\<forall>k < i. sort_inner rs i (i + 1) ! k = rs ! k"
    and "\<forall>k. i < k \<and> k < length rs \<longrightarrow>
           rank_key (sort_inner rs i (i + 1) ! i) \<le> rank_key (sort_inner rs i (i + 1) ! k)"
proof -
  have vac: "\<forall>k. i < k \<and> k < i + 1 \<longrightarrow> rank_key (rs ! i) \<le> rank_key (rs ! k)" by auto
  have "i < i + 1" by simp
  note all = sort_inner_props [OF this assms vac]
  show "mset (sort_inner rs i (i + 1)) = mset rs" using all by (rule conjunct1)
  show "\<forall>k < i. sort_inner rs i (i + 1) ! k = rs ! k"
    using all by (rule conjunct2 [THEN conjunct1])
  show "\<forall>k. i < k \<and> k < length rs \<longrightarrow>
           rank_key (sort_inner rs i (i + 1) ! i) \<le> rank_key (sort_inner rs i (i + 1) ! k)"
    using all by (rule conjunct2 [THEN conjunct2])
qed

lemma sorted_upto_inner:
  assumes inv: "sorted_upto i rs" and i: "i < length rs"
  shows "sorted_upto (i + 1) (sort_inner rs i (i + 1))"
proof -
  let ?rs = "sort_inner rs i (i + 1)"
  have p1: "mset ?rs = mset rs" using i by (rule sort_inner_first)
  have p2: "\<forall>k < i. ?rs ! k = rs ! k" using i by (rule sort_inner_first)
  have p3: "\<forall>k. i < k \<and> k < length rs \<longrightarrow> rank_key (?rs ! i) \<le> rank_key (?rs ! k)"
    using i by (rule sort_inner_first)
  have tk: "take i ?rs = take i rs"
    using p2 i by (intro nth_take_lemma) simp_all
  have "mset (take i ?rs @ drop i ?rs) = mset (take i rs @ drop i rs)"
    using p1 by (simp only: append_take_drop_id)
  then have "mset (take i rs) + mset (drop i ?rs) = mset (take i rs) + mset (drop i rs)"
    by (simp only: mset_append tk)
  then have dr: "mset (drop i ?rs) = mset (drop i rs)" by (simp only: add_left_cancel)
  then have drs: "set (drop i ?rs) = set (drop i rs)" by (rule mset_eq_setD)
  have split: "drop i ?rs = ?rs ! i # drop (i + 1) ?rs"
    using i by (simp add: Cons_nth_drop_Suc)
  have tk1: "take (i + 1) ?rs = take i rs @ [?rs ! i]"
    using i tk by (simp add: take_Suc_conv_app_nth)
  have below: "rank_key a \<le> rank_key b" if "a \<in> set (take i rs)" "b \<in> set (drop i ?rs)" for a b
    using that inv drs unfolding sorted_upto_def by simp
  have s1: "sorted (map rank_key (take (i + 1) ?rs))"
  proof -
    have "sorted (map rank_key (take i rs))" using inv by (simp add: sorted_upto_def)
    moreover have "\<forall>a \<in> set (take i rs). rank_key a \<le> rank_key (?rs ! i)"
      using below split by simp
    ultimately show ?thesis unfolding tk1 by (simp add: sorted_append)
  qed
  have s2: "rank_key a \<le> rank_key b" if a: "a \<in> set (take (i + 1) ?rs)" and b: "b \<in> set (drop (i + 1) ?rs)" for a b
  proof -
    from b obtain k where k: "b = ?rs ! k" "i < k" "k < length rs"
      by (auto simp: in_set_conv_nth)
    have bd: "b \<in> set (drop i ?rs)" using b split by simp
    from a have "a \<in> set (take i rs) \<or> a = ?rs ! i" unfolding tk1 by auto
    then show ?thesis
    proof
      assume "a \<in> set (take i rs)" then show ?thesis using bd by (rule below)
    next
      assume "a = ?rs ! i" then show ?thesis using p3 k by simp
    qed
  qed
  show ?thesis unfolding sorted_upto_def using s1 s2 by simp
qed

lemma sort_outer_props:
  "sorted_upto i rs \<Longrightarrow> i \<le> length rs \<Longrightarrow>
   sorted (map rank_key (sort_outer rs i)) \<and> mset (sort_outer rs i) = mset rs"
proof (induction rs i rule: sort_outer.induct)
  case (1 rs i)
  show ?case
  proof (cases "i < length rs")
    case False
    with "1.prems" have "i = length rs" by simp
    then show ?thesis using "1.prems" by (subst (1 2) sort_outer.simps) (simp add: sorted_upto_def)
  next
    case True
    have "sorted_upto (i + 1) (sort_inner rs i (i + 1))" using "1.prems" True by (intro sorted_upto_inner)
    then have "sorted (map rank_key (sort_outer (sort_inner rs i (i + 1)) (i + 1)))
        \<and> mset (sort_outer (sort_inner rs i (i + 1)) (i + 1)) = mset (sort_inner rs i (i + 1))"
      using True by (intro "1.IH") auto
    moreover have "mset (sort_inner rs i (i + 1)) = mset rs"
      using True by (rule sort_inner_first)
    ultimately show ?thesis using True by (subst (1 2) sort_outer.simps) simp
  qed
qed

lemma sortResults_sorted: "sorted (map rank_key (sortResults rs))"
  and sortResults_mset: "mset (sortResults rs) = mset rs"
  using sort_outer_props [of 0 rs] by (simp_all add: sortResults_def sorted_upto_def)

lemma distinct_add_counts:
  "distinct (map fst results) \<Longrightarrow> distinct (map fst (add_counts docs results))"
  by (induction docs results rule: add_counts.induct) (simp_all add: AList.distinct_update)

lemma distinct_search_word:
  "distinct (map fst results) \<Longrightarrow> distinct (map fst (search_word stem idx word langs results))"
  by (induction langs arbitrary: results)
     (auto split: sum.splits option.splits intro: distinct_add_counts)

lemma distinct_search_words:
  "distinct (map fst results) \<Longrightarrow> distinct (map fst (search_words stem lower idx langs ws results))"
  by (induction ws arbitrary: results) (auto intro: distinct_search_word)

lemma ranks_before_iff: "ranks_before a b \<longleftrightarrow> rank_key a < rank_key b"
  using sint_eq_iff [of "snd a" "snd b"]
  by (auto simp: ranks_before_def rank_key_def less_prod_def)

lemma sortResults_strict:
  assumes "distinct (map fst rs)"
  shows "sorted_wrt ranks_before (sortResults rs)"
proof -
  have "distinct rs" using assms by (simp add: distinct_map)
  then have "distinct (sortResults rs)"
    using mset_eq_imp_distinct_iff [OF sortResults_mset [of rs]] by simp
  then have "distinct (map rank_key (sortResults rs))"
    by (simp add: distinct_map inj_on_def inj_rank_key)
  with sortResults_sorted [of rs] have "sorted_wrt (<) (map rank_key (sortResults rs))"
    by (simp add: strict_sorted_iff)
  then show ?thesis by (simp add: sorted_wrt_map ranks_before_iff [abs_def])
qed

lemma sortResults_order_free:
  assumes "distinct (map fst rs)" "mset rs' = mset rs"
  shows "sortResults rs' = sortResults rs"
proof -
  have d: "distinct rs" using assms(1) by (simp add: distinct_map)
  have d': "distinct rs'" using d mset_eq_imp_distinct_iff [OF assms(2)] by simp
  have inj: "inj_on rank_key A" for A by (simp add: inj_on_def inj_rank_key)
  have m: "mset (sortResults rs') = mset (sortResults rs)"
    using assms(2) by (simp add: sortResults_mset)
  have "distinct (sortResults rs)" "distinct (sortResults rs')"
    using d d' mset_eq_imp_distinct_iff [OF sortResults_mset [of rs]]
      mset_eq_imp_distinct_iff [OF sortResults_mset [of rs']]
    by simp_all
  then have dk: "distinct (map rank_key (sortResults rs))" "distinct (map rank_key (sortResults rs'))"
    using inj by (simp_all add: distinct_map)
  have "set (sortResults rs') = set (sortResults rs)"
    using m by (rule mset_eq_setD)
  then have "set (map rank_key (sortResults rs')) = set (map rank_key (sortResults rs))"
    by (simp only: set_map)
  with sortResults_sorted [of rs'] dk(2) sortResults_sorted [of rs] dk(1)
  have "map rank_key (sortResults rs') = map rank_key (sortResults rs)"
    by (rule sorted_distinct_set_unique)
  then show ?thesis using inj [of UNIV] by (simp only: inj_map_eq_map)
qed


subsection \<open>Closed evaluations\<close>

lemmas text_eval =
  ascii_strings_def ascii_Fields_def is_space_def normalize_word_def ascii_ToLower_def lower_char_def
  Trim_def punctuation_def

lemmas index_eval =
  run_ops_def NewSearchEngine_def IndexDocument_def DeleteDocument_def doc_at_def
  getBasePath_def Join_def Clean_def stem_id_def bump_def unlink_def Let_def

lemmas search_eval =
  Search_def word_sless_alt ranked_def sortResults_def sort_outer.simps sort_inner.simps
  sort_step_def exchange_def

lemma se_hello_eval:
  "se_hello = \<lparr>index = [(''hello'', [(''data/hello_world(1)'', 1), (''data/hello_world'', 1)]),
                        (''world'', [(''data/hello_world(1)'', 1), (''data/hello_world'', 1), (''data/other'', 2)]),
                        (''second'', [(''data/hello_world(1)'', 1)]),
                        (''first'', [(''data/hello_world'', 1)]),
                        (''third'', [(''data/other'', 1)])],
     documents = [(''data/hello_world(1)'', doc_at ''hello_world(1)'' ''Hello World!'' ''second''),
                  (''data/hello_world'', doc_at ''hello_world'' ''Hello World!'' ''first''),
                  (''data/other'', doc_at ''other'' ''World world'' ''third'')],
     languages = [''english'', ''klingon''], stemmer = stem_id, strings = ascii_strings\<rparr>"
  unfolding se_hello_def by (simp add: index_eval text_eval)

lemma ranked_hello_eval:
  "ranked se_hello ''world'' =
     [(''data/other'', 2), (''data/hello_world'', 1), (''data/hello_world(1)'', 1)]"
  unfolding se_hello_eval by (simp add: search_eval text_eval stem_id_def)


subsection \<open>A language whose stemmer fails\<close>

lemma index_word_failing_language:
  assumes "\<forall>word. isl (stem word lang False)"
  shows "index_word stem fullPath word langs idx
       = index_word stem fullPath word (removeAll lang langs) idx"
proof (induction langs arbitrary: idx)
  case Nil
  show ?case by simp
next
  case (Cons l langs)
  show ?case
  proof (cases "l = lang")
    case True
    from assms have "isl (stem word lang False)" by simp
    then obtain e where "stem word lang False = Inl e"
      by (cases "stem word lang False") auto
    then show ?thesis using True Cons.IH by simp
  next
    case False
    then show ?thesis using Cons.IH by (simp split: sum.splits)
  qed
qed

lemma index_words_failing_language:
  assumes "\<forall>word. isl (stem word lang False)"
  shows "index_words stem lower fullPath langs ws idx
       = index_words stem lower fullPath (removeAll lang langs) ws idx"
proof (induction ws arbitrary: idx)
  case Nil
  show ?case by simp
next
  case (Cons w ws)
  have "index_word stem fullPath (normalize_word lower w) langs idx
      = index_word stem fullPath (normalize_word lower w) (removeAll lang langs) idx"
    using assms by (rule index_word_failing_language)
  then show ?case using Cons.IH by simp
qed


subsection \<open>Deleting what was indexed\<close>

lemma stems_in_Cons_word:
  "stems_in stem lower langs (w # ws) = stems_in stem lower langs [w] \<union> stems_in stem lower langs ws"
  by (auto simp: stems_in_def)

lemma stems_in_Cons_lang:
  "stems_in stem lower (l # langs) ws = stems_in stem lower [l] ws \<union> stems_in stem lower langs ws"
  by (auto simp: stems_in_def)

lemma stems_in_single:
  "s \<in> stems_in stem lower [l] [w] \<longleftrightarrow> stem (normalize_word lower w) l False = Inr s \<and> s \<noteq> []"
  by (simp add: stems_in_def)

lemma stems_in_Nil [simp]: "stems_in stem lower langs [] = {}" "stems_in stem lower [] ws = {}"
  by (simp_all add: stems_in_def)

lemma cleared_unlink: "s' = s \<or> cleared s p idx \<Longrightarrow> cleared s p (unlink s' p idx)"
  by (auto simp: cleared_def unlink_def Let_def AList.update_conv' AList.delete_conv'
      split: option.splits if_splits)

lemma cleared_unindex_words:
  "cleared s p idx \<or> s \<in> stems_in stem lower [lang] ws
   \<Longrightarrow> cleared s p (unindex_words stem lower p lang ws idx)"
proof (induction ws arbitrary: idx)
  case Nil
  then show ?case by simp
next
  case (Cons w ws)
  show ?case
  proof (cases "stem (normalize_word lower w) lang False")
    case (Inl e)
    then have "s \<notin> stems_in stem lower [lang] [w]" by (simp add: stems_in_single)
    then have "cleared s p idx \<or> s \<in> stems_in stem lower [lang] ws"
      using Cons.prems stems_in_Cons_word [of stem lower "[lang]" w ws] by blast
    then show ?thesis using Inl Cons.IH by simp
  next
    case (Inr t)
    show ?thesis
    proof (cases "t = []")
      case True
      then have "s \<notin> stems_in stem lower [lang] [w]" using Inr by (auto simp: stems_in_single)
      then have "cleared s p idx \<or> s \<in> stems_in stem lower [lang] ws"
        using Cons.prems stems_in_Cons_word [of stem lower "[lang]" w ws] by blast
      then show ?thesis using Inr True Cons.IH by simp
    next
      case False
      have "s \<in> stems_in stem lower [lang] [w] \<longleftrightarrow> s = t" using Inr False by (auto simp: stems_in_single)
      then have "t = s \<or> cleared s p idx \<or> s \<in> stems_in stem lower [lang] ws"
        using Cons.prems stems_in_Cons_word [of stem lower "[lang]" w ws] by blast
      then have "cleared s p (unlink t p idx) \<or> s \<in> stems_in stem lower [lang] ws"
        using cleared_unlink [of t s p idx] by blast
      then show ?thesis using Inr False Cons.IH by simp
    qed
  qed
qed

lemma cleared_unindex_langs:
  "cleared s p idx \<or> s \<in> stems_in stem lower langs ws
   \<Longrightarrow> cleared s p (unindex_langs stem lower p ws langs idx)"
proof (induction langs arbitrary: idx)
  case Nil
  then show ?case by simp
next
  case (Cons l langs)
  from Cons.prems have "cleared s p idx \<or> s \<in> stems_in stem lower [l] ws \<or> s \<in> stems_in stem lower langs ws"
    using stems_in_Cons_lang [of stem lower l langs ws] by blast
  then have "cleared s p (unindex_words stem lower p l ws idx) \<or> s \<in> stems_in stem lower langs ws"
    using cleared_unindex_words [of s p idx stem lower l ws] by blast
  then show ?case using Cons.IH by simp
qed

lemma own_bump: "own s p idx \<Longrightarrow> own s p (bump s' p idx)"
proof -
  assume o: "own s p idx"
  show ?thesis
  proof (cases "s' = s")
    case False
    then show ?thesis using o by (simp add: own_def bump_def Let_def AList.update_conv')
  next
    case True
    have "fst ` set (case map_of idx s of None \<Rightarrow> [] | Some b \<Rightarrow> b) \<subseteq> {p}"
    proof (cases "map_of idx s")
      case None
      then show ?thesis by simp
    next
      case (Some b)
      with o have "fst ` set b \<subseteq> {p}" unfolding own_def by blast
      then show ?thesis using Some by simp
    qed
    then show ?thesis using True
      by (simp add: own_def bump_def Let_def AList.update_conv' AList.dom_update)
  qed
qed

lemma absent_bump: "map_of idx s = None \<Longrightarrow> s' \<noteq> s \<Longrightarrow> map_of (bump s' p idx) s = None"
  by (simp add: bump_def Let_def AList.update_conv')

lemma own_index_word: "own s p idx \<Longrightarrow> own s p (index_word stem p word langs idx)"
  by (induction langs arbitrary: idx) (auto split: sum.splits intro: own_bump)

lemma own_index_words: "own s p idx \<Longrightarrow> own s p (index_words stem lower p langs ws idx)"
  by (induction ws arbitrary: idx) (auto intro: own_index_word)

lemma absent_index_word:
  "map_of idx s = None \<Longrightarrow> \<forall>lang \<in> set langs. stem word lang False \<noteq> Inr s
   \<Longrightarrow> map_of (index_word stem p word langs idx) s = None"
proof (induction langs arbitrary: idx)
  case Nil
  then show ?case by simp
next
  case (Cons l langs)
  show ?case
  proof (cases "stem word l False")
    case (Inl e)
    then show ?thesis using Cons by simp
  next
    case (Inr t)
    then have "t \<noteq> s" using Cons.prems(2) by auto
    then have "map_of (bump t p idx) s = None" using Cons.prems(1) by (intro absent_bump)
    then show ?thesis using Cons Inr by simp
  qed
qed

lemma absent_index_words:
  "map_of idx s = None \<Longrightarrow> s \<notin> stems_in stem lower langs ws \<Longrightarrow> s \<noteq> []
   \<Longrightarrow> map_of (index_words stem lower p langs ws idx) s = None"
proof (induction ws arbitrary: idx)
  case Nil
  then show ?case by simp
next
  case (Cons w ws)
  have a: "\<forall>lang \<in> set langs. stem (normalize_word lower w) lang False \<noteq> Inr s"
    using Cons.prems(2,3) by (auto simp: stems_in_def)
  have b: "s \<notin> stems_in stem lower langs ws"
    using Cons.prems(2) stems_in_Cons_word [of stem lower langs w ws] by blast
  have "map_of (index_word stem p (normalize_word lower w) langs idx) s = None"
    using Cons.prems(1) a by (rule absent_index_word)
  then show ?case using b Cons.prems(3) Cons.IH by simp
qed

lemma delete_only_key: "fst ` set b \<subseteq> {p} \<Longrightarrow> AList.delete p b = []"
  by (induction b) (auto simp: AList.delete_eq)

lemma own_unlink: "own s p idx \<Longrightarrow> own s p (unlink s' p idx)"
proof -
  assume o: "own s p idx"
  show ?thesis
  proof (cases "map_of idx s'")
    case None
    then show ?thesis using o by (simp add: unlink_def)
  next
    case (Some b)
    show ?thesis
    proof (cases "s' = s")
      case False
      then show ?thesis using o Some
        by (simp add: own_def unlink_def Let_def AList.update_conv' AList.delete_conv')
    next
      case True
      with o Some have "fst ` set b \<subseteq> {p}" unfolding own_def by blast
      then have "fst ` set (AList.delete p b) \<subseteq> {p}"
        using set_delete_subset [of p b] by blast
      then show ?thesis using True Some
        by (simp add: own_def unlink_def Let_def AList.update_conv' AList.delete_conv')
    qed
  qed
qed

lemma absent_unlink: "map_of idx s = None \<Longrightarrow> map_of (unlink s' p idx) s = None"
  by (auto simp: unlink_def Let_def AList.update_conv' AList.delete_conv' split: option.splits)

lemma unlink_own: "own s p idx \<Longrightarrow> map_of (unlink s p idx) s = None"
  by (auto simp: own_def unlink_def Let_def delete_only_key AList.delete_conv' split: option.splits)

lemma absent_unindex_words:
  "own s p idx \<Longrightarrow>
   own s p (unindex_words stem lower p lang ws idx) \<and>
   (map_of idx s = None \<or> s \<in> stems_in stem lower [lang] ws
      \<longrightarrow> map_of (unindex_words stem lower p lang ws idx) s = None)"
proof (induction ws arbitrary: idx)
  case Nil
  then show ?case by simp
next
  case (Cons w ws)
  note U = stems_in_Cons_word [of stem lower "[lang]" w ws]
  show ?case
  proof (cases "stem (normalize_word lower w) lang False")
    case (Inl e)
    then have "s \<notin> stems_in stem lower [lang] [w]" by (simp add: stems_in_single)
    then show ?thesis using Inl Cons.IH [OF Cons.prems] U by auto
  next
    case (Inr t)
    show ?thesis
    proof (cases "t = []")
      case True
      then have "s \<notin> stems_in stem lower [lang] [w]" using Inr by (auto simp: stems_in_single)
      then show ?thesis using Inr True Cons.IH [OF Cons.prems] U by auto
    next
      case False
      have single: "s \<in> stems_in stem lower [lang] [w] \<longleftrightarrow> s = t"
        using Inr False by (auto simp: stems_in_single)
      have o: "own s p (unlink t p idx)" using Cons.prems by (rule own_unlink)
      have "map_of idx s = None \<or> s = t \<longrightarrow> map_of (unlink t p idx) s = None"
        using absent_unlink [of idx s t p] unlink_own [OF Cons.prems] by blast
      then show ?thesis using Inr False Cons.IH [OF o] U single by auto
    qed
  qed
qed

lemma absent_unindex_langs:
  "own s p idx \<Longrightarrow> map_of idx s = None \<or> s \<in> stems_in stem lower langs ws
   \<Longrightarrow> map_of (unindex_langs stem lower p ws langs idx) s = None"
proof (induction langs arbitrary: idx)
  case Nil
  then show ?case by simp
next
  case (Cons l langs)
  note U = stems_in_Cons_lang [of stem lower l langs ws]
  from absent_unindex_words [OF Cons.prems(1), of stem lower l ws]
  have o: "own s p (unindex_words stem lower p l ws idx)"
    and a: "map_of idx s = None \<or> s \<in> stems_in stem lower [l] ws
      \<longrightarrow> map_of (unindex_words stem lower p l ws idx) s = None"
    by blast+
  have "map_of (unindex_words stem lower p l ws idx) s = None \<or> s \<in> stems_in stem lower langs ws"
    using Cons.prems(2) a U by blast
  then show ?case using Cons.IH [OF o] by simp
qed

lemma search_word_absent:
  "\<forall>lang \<in> set langs. \<forall>s. stem word lang False = Inr s \<longrightarrow> s \<noteq> [] \<longrightarrow> map_of idx s = None
   \<Longrightarrow> search_word stem idx word langs results = results"
  by (induction langs arbitrary: results) (auto split: sum.splits option.splits)

lemma search_words_absent:
  "\<forall>s \<in> stems_in stem lower langs ws. map_of idx s = None
   \<Longrightarrow> search_words stem lower idx langs ws results = results"
proof (induction ws arbitrary: results)
  case Nil
  show ?case by simp
next
  case (Cons w ws)
  have "search_word stem idx (normalize_word lower w) langs results = results"
    using Cons.prems by (intro search_word_absent) (auto simp: stems_in_def)
  moreover have "\<forall>s \<in> stems_in stem lower langs ws. map_of idx s = None"
    using Cons.prems stems_in_Cons_word [of stem lower langs w ws] by blast
  ultimately show ?case using Cons.IH by simp
qed

lemma keys_add_counts:
  "p \<in> fst ` set (add_counts docs results) \<Longrightarrow> p \<in> fst ` set docs \<or> p \<in> fst ` set results"
proof (induction docs results rule: add_counts.induct)
  case (1 results)
  then show ?case by simp
next
  case (2 docPath n docs results)
  let ?r = "AList.update docPath ((case map_of results docPath of None \<Rightarrow> 0 | Some s \<Rightarrow> s) + n) results"
  from "2.prems" have "p \<in> fst ` set (add_counts docs ?r)" by simp
  then have "p \<in> fst ` set docs \<or> p \<in> fst ` set ?r" by (rule "2.IH")
  then have "p \<in> fst ` set docs \<or> p \<in> {docPath} \<union> fst ` set results"
    by (simp only: AList.dom_update)
  then show ?case by auto
qed

lemma keys_search_word:
  "p \<in> fst ` set (search_word stem idx word langs results) \<Longrightarrow>
   p \<in> fst ` set results \<or>
   (\<exists>lang \<in> set langs. \<exists>s b. stem word lang False = Inr s \<and> s \<noteq> [] \<and> map_of idx s = Some b
      \<and> p \<in> fst ` set b)"
proof (induction langs arbitrary: results)
  case Nil
  then show ?case by simp
next
  case (Cons l langs)
  let ?hit = "\<lambda>ls. \<exists>lang \<in> set ls. \<exists>s b. stem word lang False = Inr s \<and> s \<noteq> [] \<and> map_of idx s = Some b
      \<and> p \<in> fst ` set b"
  have up: "?hit langs \<Longrightarrow> ?hit (l # langs)" by auto
  show ?case
  proof (cases "stem word l False")
    case (Inl e)
    then have "p \<in> fst ` set (search_word stem idx word langs results)" using Cons.prems by simp
    then have "p \<in> fst ` set results \<or> ?hit langs" by (rule Cons.IH)
    then show ?thesis using up by blast
  next
    case (Inr s)
    show ?thesis
    proof (cases "s = [] \<or> map_of idx s = None")
      case True
      then have "search_word stem idx word (l # langs) results
          = search_word stem idx word langs results"
        using Inr by (cases "s = []") simp_all
      then have "p \<in> fst ` set (search_word stem idx word langs results)"
        using Cons.prems by simp
      then have "p \<in> fst ` set results \<or> ?hit langs" by (rule Cons.IH)
      then show ?thesis using up by blast
    next
      case False
      then obtain b where b: "map_of idx s = Some b" and s: "s \<noteq> []" by auto
      then have "p \<in> fst ` set (search_word stem idx word langs (add_counts b results))"
        using Cons.prems Inr by simp
      then have "p \<in> fst ` set (add_counts b results) \<or> ?hit langs" by (rule Cons.IH)
      then consider "p \<in> fst ` set b" | "p \<in> fst ` set results" | "?hit langs"
        using keys_add_counts [of p b results] by blast
      then show ?thesis
      proof cases
        case 1
        then have "?hit (l # langs)" using Inr b s by auto
        then show ?thesis by blast
      next
        case 2 then show ?thesis by blast
      next
        case 3 then show ?thesis using up by blast
      qed
    qed
  qed
qed

lemma keys_search_words:
  "p \<in> fst ` set (search_words stem lower idx langs ws results) \<Longrightarrow>
   p \<in> fst ` set results \<or>
   (\<exists>s \<in> stems_in stem lower langs ws. \<exists>b. map_of idx s = Some b \<and> p \<in> fst ` set b)"
proof (induction ws arbitrary: results)
  case Nil
  then show ?case by simp
next
  case (Cons w ws)
  note U = stems_in_Cons_word [of stem lower langs w ws]
  from Cons.prems have "p \<in> fst ` set (search_words stem lower idx langs ws
      (search_word stem idx (normalize_word lower w) langs results))" by simp
  from Cons.IH [OF this] consider
      "p \<in> fst ` set (search_word stem idx (normalize_word lower w) langs results)"
    | "\<exists>s \<in> stems_in stem lower langs ws. \<exists>b. map_of idx s = Some b \<and> p \<in> fst ` set b"
    by blast
  then show ?case
  proof cases
    case 1
    from keys_search_word [OF 1] show ?thesis
      unfolding U by (auto simp: stems_in_def)
  next
    case 2
    then show ?thesis unfolding U by blast
  qed
qed

lemma index_IndexDocument:
  "index (fst (IndexDocument se doc)) =
     index_words (stemmer se) (ToLower (strings se)) (getBasePath (Path doc)) (languages se)
       (Fields (strings se) (Title doc @ '' '' @ Content doc)) (index se)"
  by (simp add: IndexDocument_def Let_def)

lemma strings_IndexDocument [simp]: "strings (fst (IndexDocument se doc)) = strings se"
  by (simp add: IndexDocument_def Let_def)

lemma strings_DeleteDocument [simp]: "strings (fst (DeleteDocument se p)) = strings se"
  by (simp add: DeleteDocument_def Let_def split: option.splits)

lemma text_stems_IndexDocument [simp]: "text_stems (fst (IndexDocument se doc)) text = text_stems se text"
  by (simp add: text_stems_def)

lemma text_stems_DeleteDocument [simp]: "text_stems (fst (DeleteDocument se p)) text = text_stems se text"
  by (simp add: text_stems_def)

lemma index_delete_after_index:
  "index (fst (DeleteDocument (fst (IndexDocument se doc)) (Path doc))) =
     unindex_langs (stemmer se) (ToLower (strings se)) (getBasePath (Path doc))
       (Fields (strings se) (Title doc @ '' '' @ Content doc)) (languages se)
       (index (fst (IndexDocument se doc)))"
proof -
  have "map_of (documents (fst (IndexDocument se doc))) (getBasePath (Path doc)) = Some doc"
    by (simp add: IndexDocument_def Let_def AList.update_conv')
  then show ?thesis by (simp add: DeleteDocument_def Let_def)
qed

lemma sortResults_Nil [simp]: "sortResults [] = []"
  by (simp add: sortResults_def sort_outer.simps)

lemma Search_nothing_ranked:
  assumes "ranked se query = []" "Search se query page pageSize = Returns (docs, tot, err)"
  shows "docs = [] \<and> tot = 0"
  using assms by (auto simp: Search_def Let_def split: if_splits)

lemma keys_ranked:
  "fst ` set (ranked se query) =
   fst ` set (search_words (stemmer se) (ToLower (strings se)) (index se) (languages se)
                (Fields (strings se) query) [])"
proof -
  have "set (ranked se query) =
      set (search_words (stemmer se) (ToLower (strings se)) (index se) (languages se)
                (Fields (strings se) query) [])"
    unfolding ranked_def by (rule mset_eq_setD) (rule sortResults_mset)
  then show ?thesis by simp
qed


lemma se_two_eval:
  "se_two = \<lparr>index = [(''world'', [(''data/b'', 1)]), (''wor'', [(''data/b'', 1)]),
                      (''map'', [(''data/b'', 2)])],
     documents = [(''data/b'', doc_at ''b'' ''World'' ''map'')],
     languages = [''english'', ''short''], stemmer = stem_two, strings = ascii_strings\<rparr>"
  unfolding se_two_def by (simp add: index_eval text_eval stem_two_def)

lemma se_two_round_trip:
  "fst (DeleteDocument (fst (IndexDocument se_two (doc_at ''a'' ''Hello'' ''big world''))) ''a'')
     = se_two"
  unfolding se_two_eval by (simp add: index_eval text_eval stem_two_def)

lemma big_stems: "text_stems se_two ''big'' = {''big''}"
  unfolding se_two_eval by (auto simp: text_stems_def stems_in_def text_eval stem_two_def)

lemma q_stems: "text_stems se_two ''hello world'' \<subseteq> text_stems se_two ''Hello big world''"
  unfolding se_two_eval by (auto simp: text_stems_def stems_in_def text_eval stem_two_def)


subsection \<open>The score of a result\<close>

lemma tally_Nil [simp]: "tally [] p = 0"
  by (simp add: tally_def)

lemma tally_absent: "p \<notin> fst ` set m \<Longrightarrow> tally m p = 0"
  using map_of_eq_None_iff [of m p] by (simp add: tally_def)

lemma tally_update: "tally (AList.update k v m) p = (if p = k then v else tally m p)"
  by (simp add: tally_def AList.update_conv')

lemma tally_add_counts:
  "distinct (map fst docs) \<Longrightarrow> tally (add_counts docs results) p = tally results p + tally docs p"
proof (induction docs results rule: add_counts.induct)
  case (1 results)
  show ?case by simp
next
  case (2 docPath n docs results)
  let ?r = "AList.update docPath ((case map_of results docPath of None \<Rightarrow> 0 | Some s \<Rightarrow> s) + n) results"
  from "2.prems" have d: "distinct (map fst docs)" and fresh: "docPath \<notin> fst ` set docs" by simp_all
  have "tally (add_counts docs ?r) p = tally ?r p + tally docs p" using d by (rule "2.IH")
  moreover have "tally ?r p = (if p = docPath then tally results docPath + n else tally results p)"
    by (simp add: tally_update) (simp add: tally_def)
  moreover have "tally ((docPath, n) # docs) p = (if p = docPath then n else tally docs p)"
    by (simp add: tally_def)
  moreover have "tally docs docPath = 0" using fresh by (rule tally_absent)
  ultimately show ?case by simp
qed

lemma keys_update: "fst ` set (AList.update k v m) = insert k (fst ` set m)"
  using AList.dom_update [of k v m] by simp

lemma keys_add_counts_eq:
  "fst ` set (add_counts docs results) = fst ` set results \<union> fst ` set docs"
  by (induction docs results rule: add_counts.induct) (auto simp: keys_update)

lemma tally_search_word:
  "buckets_distinct idx \<Longrightarrow>
   tally (search_word stem idx word langs results) p
     = tally results p + sum_list (map (hit stem idx p word) langs)"
proof (induction langs arbitrary: results)
  case Nil
  show ?case by simp
next
  case (Cons lang langs)
  note IH = Cons.IH [OF Cons.prems]
  show ?case
  proof (cases "stem word lang False")
    case (Inl err)
    then show ?thesis using IH by (simp add: hit_def)
  next
    case (Inr s)
    show ?thesis
    proof (cases "s = []")
      case True
      then show ?thesis using Inr IH by (simp add: hit_def)
    next
      case False
      show ?thesis
      proof (cases "map_of idx s")
        case None
        then show ?thesis using Inr False IH by (simp add: hit_def)
      next
        case (Some b)
        then have "distinct (map fst b)" using Cons.prems by (simp add: buckets_distinct_def)
        then have "tally (add_counts b results) p = tally results p + tally b p"
          by (rule tally_add_counts)
        then show ?thesis using Inr False Some IH [of "add_counts b results"]
          by (simp add: hit_def)
      qed
    qed
  qed
qed

lemma tally_search_words:
  "buckets_distinct idx \<Longrightarrow>
   tally (search_words stem lower idx langs ws results) p
     = tally results p
       + sum_list (map (\<lambda>word. sum_list (map (hit stem idx p (normalize_word lower word)) langs)) ws)"
proof (induction ws arbitrary: results)
  case Nil
  show ?case by simp
next
  case (Cons w ws)
  show ?case
    using Cons.IH [OF Cons.prems, of "search_word stem idx (normalize_word lower w) langs results"]
      tally_search_word [OF Cons.prems, of stem "normalize_word lower w" langs results p]
    by simp
qed

lemma keys_search_word_eq:
  "fst ` set (search_word stem idx word langs results) =
   fst ` set results \<union>
   {p. \<exists>lang \<in> set langs. \<exists>s b. stem word lang False = Inr s \<and> s \<noteq> [] \<and> map_of idx s = Some b
      \<and> p \<in> fst ` set b}"
proof (induction langs arbitrary: results)
  case Nil
  show ?case by simp
next
  case (Cons lang langs)
  let ?hits = "\<lambda>ls. {p. \<exists>lang \<in> set ls. \<exists>s b. stem word lang False = Inr s \<and> s \<noteq> [] \<and> map_of idx s = Some b
      \<and> p \<in> fst ` set b}"
  have split: "?hits (lang # langs) = ?hits [lang] \<union> ?hits langs" by auto
  show ?case
  proof (cases "stem word lang False")
    case (Inl err)
    then have "?hits [lang] = {}" by simp
    then show ?thesis unfolding split using Inl Cons.IH [of results] by simp
  next
    case (Inr s)
    show ?thesis
    proof (cases "s = []")
      case True
      then have "?hits [lang] = {}" using Inr by simp
      then show ?thesis unfolding split using Inr True Cons.IH [of results] by simp
    next
      case False
      show ?thesis
      proof (cases "map_of idx s")
        case None
        then have "?hits [lang] = {}" using Inr by simp
        then show ?thesis unfolding split using Inr False None Cons.IH [of results] by simp
      next
        case (Some b)
        then have "?hits [lang] = fst ` set b" using Inr False by simp
        then show ?thesis unfolding split
          using Inr False Some Cons.IH [of "add_counts b results"]
          by (simp add: keys_add_counts_eq Un_assoc)
      qed
    qed
  qed
qed

lemma keys_search_words_eq:
  "fst ` set (search_words stem lower idx langs ws results) =
   fst ` set results \<union>
   {p. \<exists>s \<in> stems_in stem lower langs ws. \<exists>b. map_of idx s = Some b \<and> p \<in> fst ` set b}"
proof (induction ws arbitrary: results)
  case Nil
  show ?case by simp
next
  case (Cons w ws)
  let ?hits = "\<lambda>S. {p. \<exists>s \<in> S. \<exists>b. map_of idx s = Some b \<and> p \<in> fst ` set b}"
  have one: "{p. \<exists>lang \<in> set langs. \<exists>s b. stem (normalize_word lower w) lang False = Inr s \<and> s \<noteq> []
                 \<and> map_of idx s = Some b \<and> p \<in> fst ` set b}
             = ?hits (stems_in stem lower langs [w])"
    by (auto simp: stems_in_def)
  have split: "?hits (stems_in stem lower langs (w # ws))
             = ?hits (stems_in stem lower langs [w]) \<union> ?hits (stems_in stem lower langs ws)"
    unfolding stems_in_Cons_word [of stem lower langs w ws] by blast
  have step: "fst ` set (search_word stem idx (normalize_word lower w) langs results)
             = fst ` set results \<union> ?hits (stems_in stem lower langs [w])"
    unfolding keys_search_word_eq one by (rule refl)
  show ?case
    unfolding split
    using Cons.IH [of "search_word stem idx (normalize_word lower w) langs results"]
    by (simp add: step Un_assoc)
qed

lemma entry_iff_tally:
  assumes "distinct (map fst m)"
  shows "(p, c) \<in> set m \<longleftrightarrow> p \<in> fst ` set m \<and> tally m p = c"
proof
  assume "(p, c) \<in> set m"
  then have "map_of m p = Some c" using assms by simp
  then show "p \<in> fst ` set m \<and> tally m p = c"
    using \<open>(p, c) \<in> set m\<close> by (force simp: tally_def)
next
  assume a: "p \<in> fst ` set m \<and> tally m p = c"
  then obtain c' where c': "(p, c') \<in> set m" by auto
  then have "map_of m p = Some c'" using assms by simp
  then have "tally m p = c'" by (simp add: tally_def)
  with a c' show "(p, c) \<in> set m" by simp
qed

lemma keys_dom: "p \<in> fst ` set b \<longleftrightarrow> map_of b p \<noteq> None"
  using map_of_eq_None_iff [of b p] by auto

lemma set_results:
  assumes "buckets_distinct (index se)"
  shows "set (search_words (stemmer se) (ToLower (strings se)) (index se) (languages se)
               (Fields (strings se) query) [])
       = {(k, total_score se query k) | k. k \<in> matching se query}"
proof -
  let ?res = "search_words (stemmer se) (ToLower (strings se)) (index se) (languages se)
               (Fields (strings se) query) []"
  have d: "distinct (map fst ?res)" by (rule distinct_search_words) simp
  have k: "fst ` set ?res = matching se query"
    unfolding keys_search_words_eq matching_def text_stems_def by (simp add: keys_dom)
  have t: "tally ?res p = total_score se query p" for p
    unfolding tally_search_words [OF assms] total_score_def by simp
  show ?thesis
  proof (intro set_eqI iffI)
    fix x assume x: "x \<in> set ?res"
    obtain p c where pc: "x = (p, c)" by (cases x)
    from x have "p \<in> fst ` set ?res \<and> tally ?res p = c"
      unfolding pc entry_iff_tally [OF d] .
    then show "x \<in> {(k, total_score se query k) | k. k \<in> matching se query}"
      unfolding pc k t by blast
  next
    fix x assume "x \<in> {(k, total_score se query k) | k. k \<in> matching se query}"
    then obtain p where pc: "x = (p, total_score se query p)" and m: "p \<in> matching se query" by blast
    have "p \<in> fst ` set ?res \<and> tally ?res p = total_score se query p"
      using m unfolding k t by simp
    then show "x \<in> set ?res" unfolding pc entry_iff_tally [OF d] .
  qed
qed

lemma set_ranked:
  "set (ranked se query)
     = set (search_words (stemmer se) (ToLower (strings se)) (index se) (languages se)
             (Fields (strings se) query) [])"
  unfolding ranked_def by (rule mset_eq_setD) (rule sortResults_mset)

lemma distinct_ranked: "distinct (map fst (ranked se query))"
proof -
  let ?res = "search_words (stemmer se) (ToLower (strings se)) (index se) (languages se)
               (Fields (strings se) query) []"
  have d: "distinct (map fst ?res)" by (rule distinct_search_words) simp
  have "mset (ranked se query) = mset ?res" unfolding ranked_def by (rule sortResults_mset)
  then have "image_mset fst (mset (ranked se query)) = image_mset fst (mset ?res)" by simp
  then have "mset (map fst (ranked se query)) = mset (map fst ?res)" by simp
  then show ?thesis using d mset_eq_imp_distinct_iff by blast
qed

lemma ranked_above:
  assumes "buckets_distinct (index se)"
  shows "sorted_wrt (ranks_above se query) (map fst (ranked se query))"
proof -
  have d: "distinct (map fst (search_words (stemmer se) (ToLower (strings se)) (index se) (languages se)
               (Fields (strings se) query) []))"
    by (rule distinct_search_words) simp
  have s: "sorted_wrt ranks_before (ranked se query)"
    unfolding ranked_def using d by (rule sortResults_strict)
  have sc: "snd x = total_score se query (fst x)" if "x \<in> set (ranked se query)" for x
    using that unfolding set_ranked set_results [OF assms] by auto
  have "sorted_wrt (\<lambda>x y. ranks_above se query (fst x) (fst y)) (ranked se query)"
    using s
  proof (rule sorted_wrt_mono_rel [rotated])
    fix x y assume "x \<in> set (ranked se query)" "y \<in> set (ranked se query)" "ranks_before x y"
    then show "ranks_above se query (fst x) (fst y)"
      using sc [of x] sc [of y] by (simp add: ranks_before_def ranks_above_def)
  qed
  then show ?thesis by (simp add: sorted_wrt_map)
qed

lemma length_ranked:
  assumes "buckets_distinct (index se)"
  shows "length (ranked se query) = card (matching se query)"
proof -
  have "fst ` set (ranked se query) = matching se query"
    unfolding set_ranked set_results [OF assms] by force
  then have "card (matching se query) = card (set (map fst (ranked se query)))" by simp
  also have "\<dots> = length (map fst (ranked se query))"
    using distinct_ranked by (rule distinct_card)
  finally show ?thesis by simp
qed

lemma keys_page_docs:
  "docs_keyed docs \<Longrightarrow>
   map (\<lambda>d. getBasePath (Path d)) (page_docs docs rs) = filter (\<lambda>k. map_of docs k \<noteq> None) (map fst rs)"
proof (induction rs)
  case Nil
  show ?case by simp
next
  case (Cons r rs)
  show ?case
  proof (cases "map_of docs (fst r)")
    case None
    then show ?thesis using Cons by simp
  next
    case (Some d)
    then have "(fst r, d) \<in> set docs" by (rule map_of_SomeD)
    then have "fst r = getBasePath (Path d)" using Cons.prems by (auto simp: docs_keyed_def)
    then show ?thesis using Some Cons by simp
  qed
qed

lemma window_cases:
  assumes "(if c1 then Returns ([], t, None)
            else if c2 then Panic
            else Returns (page_docs D (take a (drop b R)), t, None)) = Returns (docs, tot, err)"
  shows "tot = t \<and> (\<exists>m n. docs = page_docs D (take n (drop m R)))"
proof (cases c1)
  case True
  then have "docs = []" "tot = t" using assms by simp_all
  moreover have "[] = page_docs D (take 0 (drop 0 R))" by simp
  ultimately show ?thesis by blast
next
  case False
  then have "\<not> c2" using assms by (cases c2) simp_all
  then have "docs = page_docs D (take a (drop b R))" "tot = t" using assms False by simp_all
  then show ?thesis by blast
qed

lemma Search_window:
  assumes "Search se query page pageSize = Returns (docs, tot, err)"
  shows "tot = int (length (ranked se query)) \<and>
         (\<exists>m n. docs = page_docs (documents se) (take n (drop m (ranked se query))))"
  using assms unfolding Search_def Let_def by (rule window_cases)

lemma page_docs_cong: "map_of docs' = map_of docs \<Longrightarrow> page_docs docs' rs = page_docs docs rs"
  by (induction rs) (auto split: option.splits)


subsection \<open>The enumeration of the maps\<close>

lemma buckets_distinct_bump: "buckets_distinct idx \<Longrightarrow> buckets_distinct (bump s p idx)"
  unfolding buckets_distinct_def bump_def Let_def
  by (auto simp: AList.update_conv' AList.distinct_update split: option.splits if_splits)

lemma buckets_distinct_index_word:
  "buckets_distinct idx \<Longrightarrow> buckets_distinct (index_word stem p word langs idx)"
  by (induction langs arbitrary: idx) (auto split: sum.splits intro: buckets_distinct_bump)

lemma buckets_distinct_index_words:
  "buckets_distinct idx \<Longrightarrow> buckets_distinct (index_words stem lower p langs ws idx)"
  by (induction ws arbitrary: idx) (auto intro: buckets_distinct_index_word)

lemma buckets_distinct_unlink: "buckets_distinct idx \<Longrightarrow> buckets_distinct (unlink s p idx)"
  unfolding buckets_distinct_def unlink_def Let_def
  by (auto simp: AList.update_conv' AList.delete_conv' AList.distinct_delete
           split: option.splits if_splits)

lemma buckets_distinct_unindex_words:
  "buckets_distinct idx \<Longrightarrow> buckets_distinct (unindex_words stem lower p lang ws idx)"
  by (induction ws arbitrary: idx) (auto split: sum.splits intro: buckets_distinct_unlink)

lemma buckets_distinct_unindex_langs:
  "buckets_distinct idx \<Longrightarrow> buckets_distinct (unindex_langs stem lower p ws langs idx)"
  by (induction langs arbitrary: idx) (auto intro: buckets_distinct_unindex_words)

lemma buckets_distinct_apply_op:
  "buckets_distinct (index se) \<Longrightarrow> buckets_distinct (index (apply_op se op))"
proof (cases op)
  case (Index doc)
  assume "buckets_distinct (index se)"
  then show ?thesis using Index
    by (simp add: IndexDocument_def Let_def buckets_distinct_index_words)
next
  case (Delete p)
  assume "buckets_distinct (index se)"
  then show ?thesis using Delete
    by (simp add: DeleteDocument_def Let_def buckets_distinct_unindex_langs split: option.splits)
qed

lemma buckets_distinct_run_ops:
  "buckets_distinct (index se) \<Longrightarrow> buckets_distinct (index (run_ops se ops))"
  unfolding run_ops_def
  by (induction ops arbitrary: se) (auto intro: buckets_distinct_apply_op)

lemma languages_run_ops: "languages (run_ops se ops) = languages se"
  unfolding run_ops_def by (induction ops arbitrary: se) simp_all

lemma sum_list_map_mset:
  fixes f :: "'a \<Rightarrow> go_int"
  assumes "mset xs = mset ys"
  shows "sum_list (map f xs) = sum_list (map f ys)"
proof -
  have "mset (map f xs) = mset (map f ys)" using assms by simp
  then have "sum_mset (mset (map f xs)) = sum_mset (mset (map f ys))" by (simp only:)
  then show ?thesis by (simp only: sum_mset_sum_list)
qed

lemma bucket_same:
  assumes "rel_option (\<lambda>bucket bucket'. map_of bucket' = map_of bucket \<and> distinct (map fst bucket'))
             (map_of idx s) (map_of idx' s)"
  shows "(case map_of idx' s of None \<Rightarrow> 0 | Some bucket \<Rightarrow> tally bucket p)
       = (case map_of idx s of None \<Rightarrow> 0 | Some bucket \<Rightarrow> tally bucket p)"
    and "(\<exists>bucket. map_of idx' s = Some bucket \<and> map_of bucket p \<noteq> None)
       = (\<exists>bucket. map_of idx s = Some bucket \<and> map_of bucket p \<noteq> None)"
  using assms by (cases "map_of idx s"; cases "map_of idx' s"; simp add: tally_def)+

lemma hit_same:
  assumes "\<forall>s. rel_option (\<lambda>bucket bucket'. map_of bucket' = map_of bucket \<and> distinct (map fst bucket'))
             (map_of idx s) (map_of idx' s)"
  shows "hit stem idx' p word lang = hit stem idx p word lang"
  unfolding hit_def using bucket_same(1) [OF assms [rule_format]]
  by (simp split: sum.splits)

lemma total_score_same:
  assumes "same_maps se se'" "distinct (languages se)"
  shows "total_score se' query p = total_score se query p"
proof -
  from assms(1) have idx: "\<forall>s. rel_option (\<lambda>bucket bucket'. map_of bucket' = map_of bucket \<and> distinct (map fst bucket'))
             (map_of (index se) s) (map_of (index se') s)"
    and parts: "stemmer se' = stemmer se" "strings se' = strings se"
    and ls: "set (languages se') = set (languages se)" "distinct (languages se')"
    by (simp_all add: same_maps_def)
  have m: "mset (languages se') = mset (languages se)"
    using ls assms(2) by (simp add: set_eq_iff_mset_eq_distinct)
  have h: "hit (stemmer se) (index se') p w = hit (stemmer se) (index se) p w" for w
    by (rule ext) (rule hit_same [OF idx])
  show ?thesis
    unfolding total_score_def parts h
    by (simp only: sum_list_map_mset [OF m])
qed

lemma matching_same:
  assumes "same_maps se se'"
  shows "matching se' query = matching se query"
proof -
  from assms have idx: "\<forall>s. rel_option (\<lambda>bucket bucket'. map_of bucket' = map_of bucket \<and> distinct (map fst bucket'))
             (map_of (index se) s) (map_of (index se') s)"
    and parts: "stemmer se' = stemmer se" "strings se' = strings se"
    and ls: "set (languages se') = set (languages se)"
    by (simp_all add: same_maps_def)
  have t: "text_stems se' query = text_stems se query"
    unfolding text_stems_def stems_in_def parts ls ..
  show ?thesis
    unfolding matching_def t bucket_same(2) [OF idx [rule_format]] ..
qed

lemma buckets_distinct_same: "same_maps se se' \<Longrightarrow> buckets_distinct (index se')"
  unfolding buckets_distinct_def same_maps_def
proof (intro allI impI)
  fix stemmed bucket
  assume a: "stemmer se' = stemmer se \<and> strings se' = strings se \<and>
      set (languages se') = set (languages se) \<and> distinct (languages se') \<and>
      map_of (documents se') = map_of (documents se) \<and>
      (\<forall>stemmed. rel_option (\<lambda>bucket bucket'. map_of bucket' = map_of bucket \<and> distinct (map fst bucket'))
                    (map_of (index se) stemmed) (map_of (index se') stemmed))"
    and b: "map_of (index se') stemmed = Some bucket"
  from a have "rel_option (\<lambda>bucket bucket'. map_of bucket' = map_of bucket \<and> distinct (map fst bucket'))
                    (map_of (index se) stemmed) (map_of (index se') stemmed)" by blast
  with b show "distinct (map fst bucket)" by (cases "map_of (index se) stemmed") simp_all
qed

lemma ranked_same:
  assumes "same_maps se se'" "distinct (languages se)" "buckets_distinct (index se)"
  shows "ranked se' query = ranked se query"
proof -
  let ?res = "search_words (stemmer se) (ToLower (strings se)) (index se) (languages se)
               (Fields (strings se) query) []"
  let ?res' = "search_words (stemmer se') (ToLower (strings se')) (index se') (languages se')
               (Fields (strings se') query) []"
  have d: "distinct (map fst ?res)" and d': "distinct (map fst ?res')"
    by (rule distinct_search_words, simp)+
  have "set ?res' = {(k, total_score se' query k) | k. k \<in> matching se' query}"
    using buckets_distinct_same [OF assms(1)] by (rule set_results)
  also have "\<dots> = {(k, total_score se query k) | k. k \<in> matching se query}"
    unfolding total_score_same [OF assms(1,2)] matching_same [OF assms(1)] ..
  also have "\<dots> = set ?res" using assms(3) by (rule set_results [symmetric])
  finally have "set ?res' = set ?res" .
  moreover have "distinct ?res" "distinct ?res'" using d d' by (simp_all add: distinct_map)
  ultimately have "mset ?res' = mset ?res" by (simp add: set_eq_iff_mset_eq_distinct)
  with d have "sortResults ?res' = sortResults ?res" by (rule sortResults_order_free)
  then show ?thesis unfolding ranked_def .
qed

lemma Search_same:
  assumes "same_maps se se'" "distinct (languages se)" "buckets_distinct (index se)"
  shows "Search se' query page pageSize = Search se query page pageSize"
proof -
  have r: "ranked se' query = ranked se query" using assms by (rule ranked_same)
  have m: "map_of (documents se') = map_of (documents se)" using assms(1) by (simp add: same_maps_def)
  have p: "page_docs (documents se') = page_docs (documents se)"
    by (rule ext) (rule page_docs_cong [OF m])
  show ?thesis unfolding Search_def r p ..
qed

lemma data_prefix_order:
  "(''data/'' @ p < ''data/'' @ q) \<longleftrightarrow> (p < q)"
  by simp

lemma se_rank_eval:
  "se_rank = \<lparr>index =
       [(''world'', [(''data/b'', 1), (''data/c'', 2), (''data/a(1)'', 1)]),
        (''wor'', [(''data/b'', 1), (''data/a'', 1), (''data/c'', 2), (''data/a(1)'', 1)]),
        (''map'', [(''data/b'', 2)]), (''worldly'', [(''data/a'', 1)]),
        (''wise'', [(''data/a'', 1)]), (''wis'', [(''data/a'', 1)]),
        (''atlas'', [(''data/a(1)'', 1)]), (''atl'', [(''data/a(1)'', 1)])],
     documents = [(''data/b'', doc_at ''b'' ''World'' ''map''),
                  (''data/a'', doc_at ''a'' ''Worldly'' ''wise''),
                  (''data/c'', doc_at ''c'' ''World'' ''world''),
                  (''data/a(1)'', doc_at ''a(1)'' ''World'' ''atlas'')],
     languages = [''english'', ''short''], stemmer = stem_two, strings = ascii_strings\<rparr>"
  unfolding se_rank_def by (simp add: index_eval text_eval stem_two_def)

lemma ranked_rank_eval:
  "ranked se_rank ''world'' = [(''data/c'', 4), (''data/a(1)'', 2), (''data/b'', 2), (''data/a'', 1)]"
  unfolding se_rank_eval by (simp add: search_eval text_eval stem_two_def)

lemma Search_rank_eval:
  "Search se_rank ''world'' 2 2
     = Returns ([doc_at ''b'' ''World'' ''map'', doc_at ''a'' ''Worldly'' ''wise''], 4, None)"
  unfolding se_rank_eval by (simp add: search_eval text_eval stem_two_def Let_def)

lemma same_maps_shuffled_rank: "same_maps se_rank (shuffled se_rank)"
  unfolding se_rank_eval by (auto simp: same_maps_def shuffled_def fun_eq_iff)

lemma results_shuffled_rank:
  "search_words (stemmer (shuffled se_rank)) (ToLower (strings (shuffled se_rank)))
     (index (shuffled se_rank)) (languages (shuffled se_rank))
     (Fields (strings (shuffled se_rank)) ''world'') []
   = [(''data/a(1)'', 2), (''data/c'', 4), (''data/a'', 1), (''data/b'', 2)]"
  unfolding se_rank_eval by (simp add: shuffled_def text_eval stem_two_def)


section \<open>Claims about the search index\<close>

text \<open>
  C4. Indexing a document and then deleting its path removes every trace of the document.
  Whatever calls came before, \<open>DeleteDocument\<close> after \<open>IndexDocument\<close> succeeds and the
  path is no longer stored; no bucket of a stem of the document's words, under any
  language, holds the index key \<open>getBasePath (Path doc)\<close> any more; a query made of stems of
  the document is not answered with that key in \<open>sortedResults\<close>; a query whose stems had
  no bucket before the document was indexed (terms that were present only in the
  document) has no results at all, total \<open>0\<close>; and no \<open>Search\<close>, for any query and page,
  returns a document with that path.
\<close>

theorem delete_after_index_clears_path:
  fixes strs stem langs ops doc
  defines "se \<equiv> run_ops (NewSearchEngine strs stem langs) ops"
  defines "se' \<equiv> fst (DeleteDocument (fst (IndexDocument se doc)) (Path doc))"
  shows "snd (DeleteDocument (fst (IndexDocument se doc)) (Path doc)) = None \<and>
         map_of (documents se') (getBasePath (Path doc)) = None \<and>
         (\<forall>stemmed \<in> text_stems se (Title doc @ '' '' @ Content doc). \<forall>bucket.
            map_of (index se') stemmed = Some bucket \<longrightarrow>
            map_of bucket (getBasePath (Path doc)) = None) \<and>
         (\<forall>query. text_stems se query \<subseteq> text_stems se (Title doc @ '' '' @ Content doc) \<longrightarrow>
            getBasePath (Path doc) \<notin> fst ` set (ranked se' query)) \<and>
         (\<forall>query. (\<forall>stemmed \<in> text_stems se query. map_of (index se) stemmed = None) \<longrightarrow>
            ranked se' query = [] \<and>
            (\<forall>page pageSize docs tot err.
               Search se' query page pageSize = Returns (docs, tot, err) \<longrightarrow> docs = [] \<and> tot = 0)) \<and>
         (\<forall>query page pageSize docs tot err.
            Search se' query page pageSize = Returns (docs, tot, err) \<longrightarrow>
            (\<forall>d \<in> set docs. Path d \<noteq> Path doc))"
proof -
  let ?full = "getBasePath (Path doc)"
  let ?se1 = "fst (IndexDocument se doc)"
  let ?text = "Title doc @ '' '' @ Content doc"
  let ?ws = "Fields (strings se) ?text"
  let ?st = "stemmer se" and ?lo = "ToLower (strings se)" and ?ls = "languages se"
  have idx': "index se' = unindex_langs ?st ?lo ?full ?ws ?ls (index ?se1)"
    unfolding se'_def by (rule index_delete_after_index)
  have idx1: "index ?se1 = index_words ?st ?lo ?full ?ls ?ws (index se)"
    by (rule index_IndexDocument)
  have parts: "stemmer se' = ?st" "strings se' = strings se" "languages se' = ?ls"
    by (simp_all add: se'_def)
  have stored: "map_of (documents ?se1) ?full = Some doc"
    by (simp add: IndexDocument_def Let_def AList.update_conv')
  then have ok: "snd (DeleteDocument ?se1 (Path doc)) = None"
    by (simp add: DeleteDocument_def Let_def)
  have gone: "map_of (documents se') ?full = None"
    using stored by (simp add: se'_def DeleteDocument_def Let_def AList.delete_conv')
  have clear: "map_of bucket ?full = None"
    if "stemmed \<in> text_stems se ?text" "map_of (index se') stemmed = Some bucket" for stemmed bucket
  proof -
    from that(1) have "stemmed \<in> stems_in ?st ?lo ?ls ?ws" by (simp add: text_stems_def)
    then have "cleared stemmed ?full (index se')"
      unfolding idx' by (intro cleared_unindex_langs) simp
    with that(2) show ?thesis unfolding cleared_def by blast
  qed
  have unranked: "?full \<notin> fst ` set (ranked se' query)"
    if sub: "text_stems se query \<subseteq> text_stems se ?text" for query
  proof
    assume "?full \<in> fst ` set (ranked se' query)"
    then have "?full \<in> fst ` set (search_words ?st ?lo (index se') ?ls (Fields (strings se) query) [])"
      unfolding keys_ranked parts .
    from keys_search_words [OF this] obtain s b
      where s: "s \<in> stems_in ?st ?lo ?ls (Fields (strings se) query)"
        and b: "map_of (index se') s = Some b" "?full \<in> fst ` set b"
      by auto
    from s sub have "s \<in> text_stems se ?text" by (auto simp: text_stems_def)
    then have "map_of b ?full = None" using b(1) by (rule clear)
    with b(2) show False by (simp add: map_of_eq_None_iff)
  qed
  have silent: "ranked se' query = [] \<and>
      (\<forall>page pageSize docs tot err.
         Search se' query page pageSize = Returns (docs, tot, err) \<longrightarrow> docs = [] \<and> tot = 0)"
    if fresh: "\<forall>stemmed \<in> text_stems se query. map_of (index se) stemmed = None" for query
  proof -
    have "map_of (index se') s = None" if s: "s \<in> stems_in ?st ?lo ?ls (Fields (strings se) query)" for s
    proof -
      from s have sne: "s \<noteq> []" by (auto simp: stems_in_def)
      from s fresh have a: "map_of (index se) s = None" by (auto simp: text_stems_def)
      then have "own s ?full (index se)" by (simp add: own_def)
      then have o: "own s ?full (index ?se1)" unfolding idx1 by (rule own_index_words)
      have "map_of (index ?se1) s = None \<or> s \<in> stems_in ?st ?lo ?ls ?ws"
        using absent_index_words [OF a _ sne, of ?st ?lo ?ls ?ws ?full] unfolding idx1 by blast
      with o show ?thesis unfolding idx' by (rule absent_unindex_langs)
    qed
    then have "search_words ?st ?lo (index se') ?ls (Fields (strings se) query) [] = []"
      by (intro search_words_absent) blast
    then have r: "ranked se' query = []" by (simp add: ranked_def parts)
    then show ?thesis using Search_nothing_ranked [OF r] by blast
  qed
  have "docs_keyed (documents se)"
    unfolding se_def by (rule docs_keyed_run_ops) (simp add: NewSearchEngine_def docs_keyed_def)
  then have "docs_keyed (documents (apply_op (apply_op se (Index doc)) (Delete (Path doc))))"
    by (intro docs_keyed_apply_op)
  then have keyed: "docs_keyed (documents se')" by (simp add: se'_def)
  have other: "Path d \<noteq> Path doc"
    if "Search se' query page pageSize = Returns (docs, tot, err)" "d \<in> set docs"
    for query page pageSize docs tot err d
  proof
    assume same: "Path d = Path doc"
    from Search_returns_stored [OF that] obtain k where k: "map_of (documents se') k = Some d" by blast
    then have "(k, d) \<in> set (documents se')" by (rule map_of_SomeD)
    with keyed have "k = getBasePath (Path d)" unfolding docs_keyed_def by blast
    with same k gone show False by simp
  qed
  show ?thesis
  proof (intro conjI)
    show "snd (DeleteDocument ?se1 (Path doc)) = None" by (rule ok)
    show "map_of (documents se') ?full = None" by (rule gone)
    show "\<forall>stemmed \<in> text_stems se ?text. \<forall>bucket.
            map_of (index se') stemmed = Some bucket \<longrightarrow> map_of bucket ?full = None"
      using clear by blast
    show "\<forall>query. text_stems se query \<subseteq> text_stems se ?text \<longrightarrow>
            ?full \<notin> fst ` set (ranked se' query)"
      using unranked by blast
    show "\<forall>query. (\<forall>stemmed \<in> text_stems se query. map_of (index se) stemmed = None) \<longrightarrow>
            ranked se' query = [] \<and>
            (\<forall>page pageSize docs tot err.
               Search se' query page pageSize = Returns (docs, tot, err) \<longrightarrow> docs = [] \<and> tot = 0)"
      using silent by blast
    show "\<forall>query page pageSize docs tot err.
            Search se' query page pageSize = Returns (docs, tot, err) \<longrightarrow>
            (\<forall>d \<in> set docs. Path d \<noteq> Path doc)"
      using other by blast
  qed
qed

theorem delete_after_index_clears_path_witness:
  "snd (DeleteDocument (fst (IndexDocument se_two (doc_at ''a'' ''Hello'' ''big world''))) ''a'') = None
   \<and> fst (DeleteDocument (fst (IndexDocument se_two (doc_at ''a'' ''Hello'' ''big world''))) ''a'') = se_two
   \<and> ''wor'' \<in> text_stems se_two ''Hello big world''
   \<and> map_of (index se_two) ''wor'' = Some [(''data/b'', 1)]
   \<and> map_of [(''data/b'', 1 :: go_int)] ''data/a'' = None
   \<and> text_stems se_two ''big'' = {''big''}
   \<and> map_of (index se_two) ''big'' = None
   \<and> Search se_two ''big'' 1 10 = Returns ([], 0, None)
   \<and> text_stems se_two ''hello world'' \<subseteq> text_stems se_two ''Hello big world''
   \<and> ranked se_two ''hello world'' = [(''data/b'', 2)]
   \<and> Search se_two ''world'' 1 10 = Returns ([doc_at ''b'' ''World'' ''map''], 1, None)
   \<and> Path (doc_at ''b'' ''World'' ''map'') \<noteq> ''a''"
proof -
  let ?doc = "doc_at ''a'' ''Hello'' ''big world''"
  have p: "Path ?doc = ''a''" and t: "Title ?doc @ '' '' @ Content ?doc = ''Hello big world''"
    and f: "getBasePath ''a'' = ''data/a''"
    by (simp_all add: doc_at_def getBasePath_def Join_def Clean_def)
  have s: "se_two = run_ops (NewSearchEngine ascii_strings stem_two [''english'', ''short''])
      [Index (doc_at ''b'' ''World'' ''map'')]"
    by (rule se_two_def)
  note inst = delete_after_index_clears_path [of ascii_strings stem_two "[''english'', ''short'']"
      "[Index (doc_at ''b'' ''World'' ''map'')]" "doc_at ''a'' ''Hello'' ''big world''", folded s, unfolded p t f se_two_round_trip]
  have wor: "''wor'' \<in> text_stems se_two ''Hello big world''"
    unfolding se_two_eval by (simp add: text_stems_def stems_in_def text_eval stem_two_def)
  have bucket: "map_of (index se_two) ''wor'' = Some [(''data/b'', 1)]"
    unfolding se_two_eval by simp
  have fresh: "map_of (index se_two) ''big'' = None"
    unfolding se_two_eval by simp
  have e1: "Search se_two ''big'' 1 10 = Returns ([], 0, None)"
    unfolding se_two_eval by (simp add: search_eval text_eval stem_two_def Let_def)
  have e2: "ranked se_two ''hello world'' = [(''data/b'', 2)]"
    unfolding se_two_eval by (simp add: search_eval text_eval stem_two_def)
  have e3: "Search se_two ''world'' 1 10 = Returns ([doc_at ''b'' ''World'' ''map''], 1, None)"
    unfolding se_two_eval by (simp add: search_eval text_eval stem_two_def Let_def)
  have x1: "map_of [(''data/b'', 1 :: go_int)] ''data/a'' = None"
    by (rule inst [THEN conjunct2, THEN conjunct2, THEN conjunct1, rule_format, OF wor bucket])
  have "\<forall>d \<in> set [doc_at ''b'' ''World'' ''map'']. Path d \<noteq> ''a''"
    by (rule inst [THEN conjunct2, THEN conjunct2, THEN conjunct2, THEN conjunct2, THEN conjunct2,
          THEN spec, THEN spec, THEN spec, THEN spec, THEN spec, THEN spec, THEN mp, OF e3])
  hence x2: "Path (doc_at ''b'' ''World'' ''map'') \<noteq> ''a''" by simp
  have x3: "snd (DeleteDocument (fst (IndexDocument se_two ?doc)) ''a'') = None"
    by (rule inst [THEN conjunct1])
  show ?thesis
    by (intro conjI x3 se_two_round_trip wor bucket x1 big_stems fresh e1 q_stems e2 e3 x2)
qed




text \<open>
  C6. The page window of \<open>Search\<close>. The offset \<open>(page - 1) * pageSize\<close> is computed in
  64-bit arithmetic and wraps. With three matching documents and \<open>pageSize = 4\<close> the only
  page is page 1, but for \<open>page = 2 ^ 62 + 1\<close> the offset wraps to 0 and the first page is
  returned instead of the empty slice; with \<open>pageSize = 2\<close> the offset wraps to
  \<open>- 2 ^ 63\<close> and the slice expression panics. Pages within range behave as claimed.
\<close>

theorem Search_page_offset_wraps:
  "Search se_hello ''world'' 4611686018427387905 4 =
     Returns ([doc_at ''other'' ''World world'' ''third'',
               doc_at ''hello_world'' ''Hello World!'' ''first'',
               doc_at ''hello_world(1)'' ''Hello World!'' ''second''], 3, None)
   \<and> Search se_hello ''world'' 4611686018427387905 2 = Panic
   \<and> Search se_hello ''world'' 2 4 = Returns ([], 3, None)"
  unfolding se_hello_eval by (simp add: search_eval text_eval stem_id_def Let_def)

text \<open>
  C8. Errors of the search index. \<open>IndexDocument\<close> never returns an error and \<open>Search\<close>,
  when it returns, returns none. \<open>DeleteDocument\<close> returns the error "document not found"
  exactly when no document is stored under the path, and then changes nothing. A language
  whose stemmer fails is passed over: the index is the one the other languages alone
  produce.
\<close>

theorem search_index_errors:
  "snd (IndexDocument se doc) = None \<and>
   snd (DeleteDocument se docPath) =
     (if map_of (documents se) (getBasePath docPath) = None
      then Some (DocumentNotFound docPath) else None) \<and>
   (map_of (documents se) (getBasePath docPath) = None \<longrightarrow>
      fst (DeleteDocument se docPath) = se) \<and>
   (\<forall>docs tot err. Search se query page pageSize = Returns (docs, tot, err) \<longrightarrow> err = None) \<and>
   ((\<forall>word. isl (stemmer se word lang False)) \<longrightarrow>
      index (fst (IndexDocument se doc))
        = index (fst (IndexDocument (se\<lparr>languages := removeAll lang (languages se)\<rparr>) doc)))"
proof (intro conjI)
  show "snd (IndexDocument se doc) = None" by (simp add: IndexDocument_def Let_def)
  show "snd (DeleteDocument se docPath) =
     (if map_of (documents se) (getBasePath docPath) = None
      then Some (DocumentNotFound docPath) else None)"
    by (auto simp: DeleteDocument_def Let_def split: option.splits)
  show "map_of (documents se) (getBasePath docPath) = None \<longrightarrow>
      fst (DeleteDocument se docPath) = se"
    by (auto simp: DeleteDocument_def Let_def split: option.splits)
  show "\<forall>docs tot err. Search se query page pageSize = Returns (docs, tot, err) \<longrightarrow> err = None"
    by (blast dest: Search_returns_no_error)
  show "(\<forall>word. isl (stemmer se word lang False)) \<longrightarrow>
      index (fst (IndexDocument se doc))
        = index (fst (IndexDocument (se\<lparr>languages := removeAll lang (languages se)\<rparr>) doc))"
  proof
    assume "\<forall>word. isl (stemmer se word lang False)"
    then have "index_words (stemmer se) (ToLower (strings se)) (getBasePath (Path doc)) (languages se)
          (Fields (strings se) (Title doc @ '' '' @ Content doc)) (index se)
        = index_words (stemmer se) (ToLower (strings se)) (getBasePath (Path doc)) (removeAll lang (languages se))
          (Fields (strings se) (Title doc @ '' '' @ Content doc)) (index se)"
      by (rule index_words_failing_language)
    then show "index (fst (IndexDocument se doc))
        = index (fst (IndexDocument (se\<lparr>languages := removeAll lang (languages se)\<rparr>) doc))"
      by (simp add: IndexDocument_def Let_def)
  qed
qed

theorem search_index_errors_witness:
  "(\<forall>word. isl (stemmer se_hello word ''klingon'' False))
   \<and> index (fst (IndexDocument se_hello (doc_at ''a'' ''Hello'' '''')))
     = index (fst (IndexDocument (se_hello\<lparr>languages := [''english'']\<rparr>) (doc_at ''a'' ''Hello'' '''')))
   \<and> snd (IndexDocument se_hello (doc_at ''a'' ''Hello'' '''')) = None
   \<and> snd (DeleteDocument se_hello ''missing'') = Some (DocumentNotFound ''missing'')
   \<and> fst (DeleteDocument se_hello ''missing'') = se_hello
   \<and> snd (DeleteDocument se_hello ''other'') = None
   \<and> Search se_hello ''world'' 2 2 =
       Returns ([doc_at ''hello_world(1)'' ''Hello World!'' ''second''], 3, None)"
proof -
  have k: "\<forall>word. isl (stemmer se_hello word ''klingon'' False)"
    unfolding se_hello_eval by (simp add: stem_id_def)
  have l: "removeAll ''klingon'' (languages se_hello) = [''english'']"
    unfolding se_hello_eval by simp
  have m: "map_of (documents se_hello) (getBasePath ''missing'') = None"
    unfolding se_hello_eval by (simp add: getBasePath_def Join_def Clean_def)
  have o: "map_of (documents se_hello) (getBasePath ''other'') \<noteq> None"
    unfolding se_hello_eval by (simp add: getBasePath_def Join_def Clean_def)
  have s: "Search se_hello ''world'' 2 2 =
       Returns ([doc_at ''hello_world(1)'' ''Hello World!'' ''second''], 3, None)"
    unfolding se_hello_eval by (simp add: search_eval text_eval stem_id_def Let_def)
  from search_index_errors [of se_hello "doc_at ''a'' ''Hello'' ''''" "''missing''" "''world''" 2 2 "''klingon''"]
    search_index_errors [of se_hello "doc_at ''a'' ''Hello'' ''''" "''other''" "''world''" 2 2 "''klingon''"]
    k l m o s
  show ?thesis by simp
qed

text \<open>
  As claimed, without the exception for \<open>DeleteDocument\<close>, C8 fails: on a new engine the
  deletion of a path returns the not-found error.
\<close>

theorem index_DeleteDocument_not_found:
  "snd (DeleteDocument (NewSearchEngine ascii_strings stem_id [''english'']) ''missing'')
     = Some (DocumentNotFound ''missing'')"
  by (simp add: DeleteDocument_def NewSearchEngine_def Let_def)

text \<open>
  C9. The inverted index never maps a stem to an empty set of documents. After every history
  of \<open>IndexDocument\<close> and \<open>DeleteDocument\<close> calls on a new engine no bucket of
  the index is empty: the bucket of a stem is removed with its last path. Every bucket
  then holds a path with a positive count as long as the history performs fewer than
  \<open>2 ^ 63\<close> increments, the range of the 64-bit counters.
\<close>

theorem index_never_keeps_empty_bucket:
  "buckets_filled (index (run_ops (NewSearchEngine strs stem langs) ops)) \<and>
   (tokens_indexed strs (remdups langs) ops < 2 ^ 63 \<longrightarrow>
      index_ok (index (run_ops (NewSearchEngine strs stem langs) ops)))"
proof
  show "buckets_filled (index (run_ops (NewSearchEngine strs stem langs) ops))"
    by (rule buckets_filled_run_ops) (simp add: NewSearchEngine_def buckets_filled_def)
next
  show "tokens_indexed strs (remdups langs) ops < 2 ^ 63 \<longrightarrow>
      index_ok (index (run_ops (NewSearchEngine strs stem langs) ops))"
  proof
    assume b: "tokens_indexed strs (remdups langs) ops < 2 ^ 63"
    have "(2::nat) ^ 63 < 2 ^ 64" by (rule power_strict_increasing) simp_all
    with b have b': "0 + tokens_indexed (strings (NewSearchEngine strs stem langs)) (languages (NewSearchEngine strs stem langs)) ops < 2 ^ 64" by simp
    have "counts_upto 0 (index (NewSearchEngine strs stem langs))"
      by (simp add: NewSearchEngine_def counts_upto_def)
    from counts_upto_run_ops [OF this b']
    have "counts_upto (tokens_indexed strs (remdups langs) ops) (index (run_ops (NewSearchEngine strs stem langs) ops))"
      by simp
    then show "index_ok (index (run_ops (NewSearchEngine strs stem langs) ops))"
      using b by (rule index_ok_of_counts_upto)
  qed
qed

theorem index_never_keeps_empty_bucket_witness:
  "tokens_indexed ascii_strings (remdups [''english'', ''klingon''])
     [Index (doc_at ''a'' ''Hello'' ''big world''), Index (doc_at ''b'' ''World'' ''''), Delete ''a'']
     < 2 ^ 63
   \<and> index (run_ops (NewSearchEngine ascii_strings stem_id [''english'', ''klingon''])
       [Index (doc_at ''a'' ''Hello'' ''big world''), Index (doc_at ''b'' ''World'' ''''), Delete ''a''])
     = [(''world'', [(''data/b'', 1)])]
   \<and> buckets_filled (index (run_ops (NewSearchEngine ascii_strings stem_id [''english'', ''klingon''])
       [Index (doc_at ''a'' ''Hello'' ''big world''), Index (doc_at ''b'' ''World'' ''''), Delete ''a'']))
   \<and> index_ok (index (run_ops (NewSearchEngine ascii_strings stem_id [''english'', ''klingon''])
       [Index (doc_at ''a'' ''Hello'' ''big world''), Index (doc_at ''b'' ''World'' ''''), Delete ''a'']))"
proof -
  let ?ops = "[Index (doc_at ''a'' ''Hello'' ''big world''), Index (doc_at ''b'' ''World'' ''''), Delete ''a'']"
  have n: "tokens_indexed ascii_strings (remdups [''english'', ''klingon'']) ?ops = 8"
    by (simp add: tokens_indexed_def doc_at_def text_eval)
  have b: "tokens_indexed ascii_strings (remdups [''english'', ''klingon'']) ?ops < 2 ^ 63"
    unfolding n by simp
  have e: "index (run_ops (NewSearchEngine ascii_strings stem_id [''english'', ''klingon'']) ?ops)
      = [(''world'', [(''data/b'', 1)])]"
    by (simp add: index_eval text_eval)
  from index_never_keeps_empty_bucket [of ascii_strings stem_id "[''english'', ''klingon'']" ?ops] b e
  show ?thesis by blast
qed


section \<open>Properties of the tree store\<close>

lemmas path_eval = Join_def Clean_def Dir_def Base_def Let_def

lemmas store_eval =
  NewGitStorage_def lookup_def within_def Stat_def Mkdir_def WriteFile_def RemoveAll_def
  ReadDir_def ReadFile_def

lemma docsDir_demo [simp]: "docsDir gs_demo = ''base/docs''" "docsDir gs_failing = ''base/docs''"
  by (simp_all add: gs_demo_def gs_failing_def NewGitStorage_def path_eval)

lemma ReadDir_has_directory:
  assumes "lookup fs p = Some Directory" "map_of fs k = Some Directory" "Dir k = p" "k \<noteq> p"
  shows "\<exists>files. ReadDir fs p = Inr files \<and> list_ex (\<lambda>(name, e). e = Directory) files"
proof -
  have "(k, Directory) \<in> set fs" using assms(2) by (rule map_of_SomeD)
  then have "(Base k, Directory) \<in> set (map (\<lambda>(k, e). (Base k, e)) (filter (\<lambda>(k, e). Dir k = p \<and> k \<noteq> p) fs))"
    using assms(3,4) by force
  then have "list_ex (\<lambda>(name, e). e = Directory)
      (sort_key fst (map (\<lambda>(k, e). (Base k, e)) (filter (\<lambda>(k, e). Dir k = p \<and> k \<noteq> p) fs)))"
    unfolding list_ex_iff by (metis (mono_tags, lifting) case_prod_conv set_sort)
  then show ?thesis using assms(1) by (simp add: ReadDir_def)
qed

lemma RemoveAll_clears: "\<forall>k \<in> fst ` set (RemoveAll fs p). \<not> within p k"
  by (auto simp: RemoveAll_def)

lemma map_of_RemoveAll: "map_of (RemoveAll fs p) k = (if within p k then None else map_of fs k)"
  unfolding RemoveAll_def by (induction fs) auto

lemma Mkdir_result:
  assumes "Mkdir fs p = Inr fs1"
  shows "fs1 = AList.update p Directory fs" "lookup fs p = None"
  using assms by (auto simp: Mkdir_def split: if_splits)

lemma WriteFile_result: "WriteFile fs p content = Inr fs1 \<Longrightarrow> fs1 = AList.update p (File content) fs"
  by (auto simp: WriteFile_def split: option.splits entry.splits if_splits)

lemma generateID_demo:
  "generateID gs_demo fs_demo [] ''x/y'' = Some ''xy''"
  "generateID gs_failing fs_demo [] ''New Page'' = Some ''new_page''"
  by (simp_all add: generateID_def generateID_loop.simps slug_def gs_demo_def gs_failing_def fs_demo_def
        is_word_char_def ascii_ToLower_def lower_char_def store_eval path_eval)

lemmas update_eval =
  UpdateDocument_def GetDocument_def readDocument_def getChildren_def getTitle_def hasChildren_def
  Rename_def generateID_def generateID_loop.simps slug_def show_nat.simps TrimSuffix_def
  is_word_char_def ascii_ToLower_def lower_char_def gs_demo_def gs_failing_def


section \<open>Claims about the tree store\<close>

text \<open>
  C3. \<open>UpdateDocument\<close> with a new title asks \<open>generateID\<close> for an identifier below the
  document itself, \<open>generateID(docPath, title)\<close>, so the candidates are compared with the
  children of the node and not with its siblings. With the root documents \<open>a\<close> and \<open>b\<close>,
  giving \<open>a\<close> the title \<open>B\<close> yields the identifier \<open>b\<close> (under the parent, as
  \<open>CreateDocument\<close> asks, it is \<open>b(1)\<close>), \<open>os.Rename\<close> onto the existing directory fails, and
  the call returns that error with the content file already renamed. With the document
  \<open>a\<close> and its child \<open>a/b\<close> and no sibling at all, the same title moves \<open>a\<close> to \<open>b(1)\<close>.
  A new title with the slug of the directory, \<open>A!\<close> for \<open>a\<close>, renames the directory to
  itself, which \<open>os.Rename\<close> refuses.
\<close>

theorem UpdateDocument_ignores_siblings:
  "UpdateDocument gs_demo fs_siblings ''a'' ''B'' ''new text'' True
     = Some ([(''base'', Directory), (''base/docs'', Directory),
              (''base/docs/a'', Directory), (''base/docs/a/B.md'', File ''text of a''),
              (''base/docs/b'', Directory), (''base/docs/b/B.md'', File ''text of b'')],
             Inl (IOErr ''file exists''))
   \<and> generateID gs_demo fs_siblings ''a'' ''B'' = Some ''b''
   \<and> generateID gs_demo fs_siblings [] ''B'' = Some ''b(1)''
   \<and> UpdateDocument gs_demo fs_demo ''a'' ''B'' ''new text'' True
     = Some ([(''base'', Directory), (''base/docs'', Directory),
              (''base/docs/b(1)'', Directory), (''base/docs/b(1)/B.md'', File ''new text''),
              (''base/docs/b(1)/b'', Directory), (''base/docs/b(1)/b/B.md'', File ''text of b'')],
             Inr \<lparr>ID = ''b(1)'', Title = ''B'', Content = ''new text'', Path = ''b(1)'',
                  Children = [\<lparr>sID = ''b'', sTitle = ''B'', HasChildren = False, sPath = ''b(1)/b''\<rparr>],
                  Uncommitted = False, Favorite = False\<rparr>)
   \<and> UpdateDocument gs_demo fs_demo ''a'' ''A!'' ''new text'' True
     = Some ([(''base'', Directory), (''base/docs'', Directory),
              (''base/docs/a'', Directory), (''base/docs/a/A!.md'', File ''text of a''),
              (''base/docs/a/b'', Directory), (''base/docs/a/b/B.md'', File ''text of b'')],
             Inl (IOErr ''file exists''))"
  by (simp add: update_eval fs_siblings_def fs_demo_def store_eval path_eval suffix_to_prefix)

text \<open>
  C7. \<open>DeleteDocument\<close> of the store on a node with a child directory: the call returns
  the has-children error and the file system it leaves is the one it found, whatever
  \<open>commitChanges\<close> would answer.
\<close>

theorem delete_with_children_refused:
  assumes "lookup fs (Join [docsDir gs, path]) = Some Directory"
    and "map_of fs child = Some Directory"
    and "Dir child = Join [docsDir gs, path]" "child \<noteq> Join [docsDir gs, path]"
  shows "DeleteDocument_store gs fs path = (fs, Some HasChildrenErr)"
proof -
  from ReadDir_has_directory [OF assms]
  have "hasChildren gs fs path = Inr True" by (auto simp: hasChildren_def)
  then show ?thesis by (simp add: DeleteDocument_store_def Let_def)
qed

theorem delete_with_children_refused_witness:
  "lookup fs_demo (Join [docsDir gs_demo, ''a'']) = Some Directory
   \<and> map_of fs_demo ''base/docs/a/b'' = Some Directory
   \<and> Dir ''base/docs/a/b'' = Join [docsDir gs_demo, ''a'']
   \<and> ''base/docs/a/b'' \<noteq> Join [docsDir gs_demo, ''a'']
   \<and> DeleteDocument_store gs_demo fs_demo ''a'' = (fs_demo, Some HasChildrenErr)
   \<and> DeleteDocument_store gs_failing fs_demo ''a'' = (fs_demo, Some HasChildrenErr)
   \<and> fst (DeleteDocument_store gs_demo fs_demo ''a/b'')
       = [(''base'', Directory), (''base/docs'', Directory),
          (''base/docs/a'', Directory), (''base/docs/a/A.md'', File ''text of a'')]"
proof -
  have j: "Join [''base/docs'', ''a''] = ''base/docs/a''" by (simp add: path_eval)
  have p1: "lookup fs_demo (Join [docsDir gs_demo, ''a'']) = Some Directory"
    and p1': "lookup fs_demo (Join [docsDir gs_failing, ''a'']) = Some Directory"
    by (simp_all add: j) (simp_all add: fs_demo_def lookup_def)
  have p2: "map_of fs_demo ''base/docs/a/b'' = Some Directory" by (simp add: fs_demo_def)
  have p3: "Dir ''base/docs/a/b'' = Join [docsDir gs_demo, ''a'']"
    and p3': "Dir ''base/docs/a/b'' = Join [docsDir gs_failing, ''a'']"
    by (simp_all add: j) (simp_all add: path_eval)
  have p4: "''base/docs/a/b'' \<noteq> Join [docsDir gs_demo, ''a'']"
    and p4': "''base/docs/a/b'' \<noteq> Join [docsDir gs_failing, ''a'']"
    by (simp_all add: j)
  have leaf: "fst (DeleteDocument_store gs_demo fs_demo ''a/b'')
       = [(''base'', Directory), (''base/docs'', Directory),
          (''base/docs/a'', Directory), (''base/docs/a/A.md'', File ''text of a'')]"
    by (simp add: DeleteDocument_store_def hasChildren_def fs_demo_def gs_demo_def store_eval path_eval)
  show ?thesis
    using delete_with_children_refused [OF p1 p2 p3 p4]
      delete_with_children_refused [OF p1' p2 p3' p4'] p1 p2 p3 p4 leaf
    by (intro conjI)
qed



end
